theory Spec2Isabelle
  imports Main "HOL-Library.AList"
begin

section \<open>JavaScript containers used by the source\<close>

text \<open>
  \<open>Array.prototype.findIndex\<close> and \<open>indexOf\<close> return \<open>-1\<close> when nothing matches, and
  \<open>splice\<close> accepts a negative start that counts from the end of the array. The model keeps
  these integer conventions, because the source feeds the result of \<open>findIndex\<close> and
  \<open>indexOf\<close> straight into \<open>splice\<close>.
\<close>

fun findIndex :: "('a \<Rightarrow> bool) \<Rightarrow> 'a list \<Rightarrow> int" where
  "findIndex P [] = -1"
| "findIndex P (x # xs) =
     (if P x then 0 else (let i = findIndex P xs in if i = -1 then -1 else i + 1))"

definition indexOf :: "'a list \<Rightarrow> 'a \<Rightarrow> int" where
  "indexOf xs k = findIndex (\<lambda>x. x = k) xs"

text \<open>\<open>xs.splice(start, deleteCount, ...items)\<close>; the result is the array after the call.\<close>

definition splice :: "int \<Rightarrow> nat \<Rightarrow> 'a list \<Rightarrow> 'a list \<Rightarrow> 'a list" where
  "splice start deleteCount items xs =
     (let len = int (length xs);
          actualStart = nat (if start < 0 then max (len + start) 0 else min start len)
      in take actualStart xs @ items @ drop (actualStart + deleteCount) xs)"

text \<open>A \<open>Set\<close> of keys, kept in insertion order (the order \<open>forEach\<close> visits).\<close>

definition setAdd :: "'a \<Rightarrow> 'a list \<Rightarrow> 'a list" where
  "setAdd k s = (if k \<in> set s then s else s @ [k])"

definition setDelete :: "'a \<Rightarrow> 'a list \<Rightarrow> 'a list" where
  "setDelete k s = removeAll k s"

section \<open>Elements\<close>

type_synonym ComponentKey = string

datatype presence_mode = Sync | PopLayout

text \<open>
  The \<open>onExit\<close> closure of lines 162-181, as the variables it captures from the render that
  created it: the key, that render's \<open>exiting\<close> set and \<open>filteredChildren\<close> array (by
  address), and whether the \<open>onExitComplete\<close> prop of \<open>AnimatePresence\<close> was supplied.
\<close>

datatype closure = OnExit (cl_key: ComponentKey) (cl_exiting: nat) (cl_filteredChildren: nat)
  (cl_onExitComplete: bool)

text \<open>
  A React element is either an element supplied by the caller (its content is opaque) or a
  \<open>PresenceChild\<close> element built by \<open>AnimatePresence\<close>. React stores every key as a string,
  and \<open>null\<close> when no key was given.
\<close>

datatype element =
    Child (key: "string option") (content: nat)
  | PresenceChild (key: "string option") (pc_isPresent: bool)
      (pc_onExitComplete: "closure option") (pc_initial: "bool option")
      (pc_custom: "nat option") (pc_mode: presence_mode) (pc_children: element)

datatype react_node = Element element | NotElement

definition getChildKey :: "element \<Rightarrow> ComponentKey" where
  "getChildKey child = (case key child of None \<Rightarrow> '''' | Some k \<Rightarrow> if k = '''' then '''' else k)"

definition updateChildLookup ::
  "element list \<Rightarrow> (ComponentKey \<times> element) list \<Rightarrow> (ComponentKey \<times> element) list" where
  "updateChildLookup children allChildren =
     foldl (\<lambda>m child. AList.update (getChildKey child) child m) allChildren children"

fun onlyElements :: "react_node list \<Rightarrow> element list" where
  "onlyElements [] = []"
| "onlyElements (Element child # rest) = child # onlyElements rest"
| "onlyElements (NotElement # rest) = onlyElements rest"

definition cloneElement :: "element \<Rightarrow> element" where
  "cloneElement child = child"

section \<open>AnimatePresence\<close>

record AnimatePresenceProps =
  children :: "react_node list"
  custom :: "nat option"
  initial :: bool
  onExitComplete :: bool
  mode :: presence_mode

text \<open>
  The state that outlives a render: the refs of the component and the heap objects that
  closures and refs share. Arrays and sets live in the heap by address, since \<open>onExit\<close>
  mutates \<open>presentChildren.current\<close> in place and that array may be the
  \<open>filteredChildren\<close> of some render. \<open>isMounted\<close> is owned by the host
  (\<open>useIsMounted\<close>); the component only reads it.
\<close>

record coordinator =
  arrays :: "nat \<Rightarrow> element list"
  sets :: "nat \<Rightarrow> ComponentKey list"
  nextAddr :: nat
  refsCreated :: bool
  presentChildren :: nat
  allChildren :: "(ComponentKey \<times> element) list"
  isInitialRender :: bool
  isMounted :: bool

text \<open>
  The refs before the first render. The host has set \<open>isMounted\<close> by the time any closure
  can run, so it starts true here; a state after teardown has it false.
\<close>

definition newCoordinator :: coordinator where
  "newCoordinator = \<lparr>arrays = (\<lambda>_. []), sets = (\<lambda>_. []), nextAddr = 0, refsCreated = False,
     presentChildren = 0, allChildren = [], isInitialRender = True, isMounted = True\<rparr>"

datatype event = ForceRender | ExitComplete

text \<open>Lines 143-149: the diff that fills this render's \<open>exiting\<close> set.\<close>

definition markExiting :: "ComponentKey list \<Rightarrow> ComponentKey list \<Rightarrow> ComponentKey list" where
  "markExiting presentKeys targetKeys =
     foldl (\<lambda>exiting k. if indexOf targetKeys k = -1 then setAdd k exiting else exiting)
       [] presentKeys"

text \<open>Lines 138-139.\<close>

definition presentKeysOf :: "coordinator \<Rightarrow> ComponentKey list" where
  "presentKeysOf st = map getChildKey (arrays st (presentChildren st))"

definition targetKeysOf :: "element list \<Rightarrow> ComponentKey list" where
  "targetKeysOf filteredChildren = map getChildKey filteredChildren"

text \<open>The three \<open>PresenceChild\<close> elements the component builds: lines 120-127, 186-194, 205-207.\<close>

definition initialChild :: "AnimatePresenceProps \<Rightarrow> element \<Rightarrow> element" where
  "initialChild props child =
     PresenceChild (Some (getChildKey child)) True None
       (if initial props then None else Some False) None (mode props) child"

definition exitingChild :: "AnimatePresenceProps \<Rightarrow> closure \<Rightarrow> element \<Rightarrow> element" where
  "exitingChild props onExit child =
     PresenceChild (Some (getChildKey child)) False (Some onExit) None
       (custom props) (mode props) child"

definition presentChild :: "AnimatePresenceProps \<Rightarrow> element \<Rightarrow> element" where
  "presentChild props child =
     PresenceChild (Some (getChildKey child)) True None None None (mode props) child"

text \<open>Lines 153-196: one iteration of \<open>exiting.forEach\<close>, on the local \<open>childrenToRender\<close>.\<close>

definition spliceExiting ::
  "AnimatePresenceProps \<Rightarrow> (ComponentKey \<times> element) list \<Rightarrow> ComponentKey list \<Rightarrow>
   ComponentKey list \<Rightarrow> nat \<Rightarrow> nat \<Rightarrow> element list \<Rightarrow> ComponentKey \<Rightarrow> element list" where
  "spliceExiting props allCh presentKeys targetKeys exitingAddr filteredAddr childrenToRender k =
     (if indexOf targetKeys k \<noteq> -1 then childrenToRender
      else case map_of allCh k of
        None \<Rightarrow> childrenToRender
      | Some child \<Rightarrow>
          (let insertionIndex = indexOf presentKeys k;
               onExit = OnExit k exitingAddr filteredAddr (onExitComplete props)
           in splice insertionIndex 0 [exitingChild props onExit child] childrenToRender))"

text \<open>Lines 200-209; \<open>exiting.has(child.key)\<close> is false for the key \<open>null\<close>.\<close>

definition exitingHas :: "ComponentKey list \<Rightarrow> element \<Rightarrow> bool" where
  "exitingHas exiting child = (case key child of None \<Rightarrow> False | Some k \<Rightarrow> k \<in> set exiting)"

definition wrapPresent :: "AnimatePresenceProps \<Rightarrow> ComponentKey list \<Rightarrow> element \<Rightarrow> element" where
  "wrapPresent props exiting child =
     (if exitingHas exiting child then child else presentChild props child)"

record render_result =
  r_output :: "element list"
  r_exiting :: nat
  r_filteredChildren :: nat
  r_childrenToRender :: nat
  r_state :: coordinator

text \<open>
  The body of the component, lines 77-218. Each render allocates its own
  \<open>filteredChildren\<close> array and \<open>exiting\<close> set; a render past the initial one also
  allocates the array that \<open>childrenToRender\<close> ends up naming. \<open>useRef(childrenToRender)\<close>
  gives \<open>presentChildren\<close> its value on the first render only.
\<close>

definition render :: "AnimatePresenceProps \<Rightarrow> coordinator \<Rightarrow> render_result" where
  "render props st =
     (let filteredChildren = onlyElements (children props);
          fAddr = nextAddr st;
          eAddr = nextAddr st + 1;
          cAddr = nextAddr st + 2;
          st1 = st\<lparr>arrays := (arrays st)(fAddr := filteredChildren),
                   sets := (sets st)(eAddr := []),
                   nextAddr := nextAddr st + 3,
                   refsCreated := True,
                   presentChildren := (if refsCreated st then presentChildren st else fAddr)\<rparr>
      in if isInitialRender st1 then
           \<lparr>r_output = map (initialChild props) filteredChildren,
            r_exiting = eAddr, r_filteredChildren = fAddr, r_childrenToRender = fAddr,
            r_state = st1\<rparr>
         else
           (let presentKeys = presentKeysOf st1;
                targetKeys = targetKeysOf filteredChildren;
                exiting = markExiting presentKeys targetKeys;
                spliced = foldl (spliceExiting props (allChildren st1) presentKeys targetKeys
                                   eAddr fAddr) filteredChildren exiting;
                childrenToRender = map (wrapPresent props exiting) spliced
            in \<lparr>r_output = (if length exiting \<noteq> 0 then childrenToRender
                             else map cloneElement childrenToRender),
                r_exiting = eAddr, r_filteredChildren = fAddr, r_childrenToRender = cAddr,
                r_state = st1\<lparr>arrays := (arrays st1)(cAddr := childrenToRender),
                              sets := (sets st1)(eAddr := exiting)\<rparr>\<rparr>))"

text \<open>Lines 103-108: the layout effect that runs after every render.\<close>

definition layoutEffect :: "render_result \<Rightarrow> coordinator" where
  "layoutEffect r =
     (let st = r_state r
      in st\<lparr>isInitialRender := False,
            allChildren := updateChildLookup (arrays st (r_filteredChildren r)) (allChildren st),
            presentChildren := r_childrenToRender r\<rparr>)"

text \<open>Lines 110-114: the unmount effect, closed over the \<open>exiting\<close> set at \<open>exitingAddr\<close>.\<close>

definition unmountEffect :: "nat \<Rightarrow> coordinator \<Rightarrow> coordinator" where
  "unmountEffect exitingAddr st =
     st\<lparr>isInitialRender := True, allChildren := [], sets := (sets st)(exitingAddr := [])\<rparr>"

text \<open>Lines 162-181: running an \<open>onExit\<close> closure. The events are the calls it makes out.\<close>

definition onExit :: "closure \<Rightarrow> coordinator \<Rightarrow> coordinator \<times> event list" where
  "onExit c st =
     (let k = cl_key c;
          st1 = st\<lparr>allChildren := AList.delete k (allChildren st)\<rparr>;
          st2 = st1\<lparr>sets := (sets st1)(cl_exiting c := setDelete k (sets st1 (cl_exiting c)))\<rparr>;
          present = presentChildren st2;
          removeIndex = findIndex (\<lambda>presentChild. key presentChild = Some k) (arrays st2 present);
          st3 = st2\<lparr>arrays := (arrays st2)(present := splice removeIndex 1 [] (arrays st2 present))\<rparr>
      in if length (sets st3 (cl_exiting c)) = 0 then
           (let st4 = st3\<lparr>presentChildren := cl_filteredChildren c\<rparr>
            in if isMounted st4 = False then (st4, [])
               else (st4, ForceRender # (if cl_onExitComplete c then [ExitComplete] else [])))
         else (st3, []))"

text \<open>A pass as the host runs it: the render, then its layout effect.\<close>

definition pass :: "AnimatePresenceProps \<Rightarrow> coordinator \<Rightarrow> render_result" where
  "pass props st = (let r = render props st in r\<lparr>r_state := layoutEffect r\<rparr>)"

section \<open>PresenceChild\<close>

text \<open>
  What one mounted \<open>PresenceChild\<close> keeps between renders: the \<open>presenceChildren\<close> map
  (insertion ordered), the \<open>isPresent\<close> value the \<open>[isPresent]\<close> dependency list of the two
  \<open>useMemo\<close> calls last saw (nothing before the first render), the \<open>onExitComplete\<close> prop
  captured by the memoised context, and the \<open>isPresent\<close> value the \<open>[isPresent]\<close> dependency
  list of the effect last saw (nothing before the effect first ran).
\<close>

record presence_child =
  presenceChildren :: "(string \<times> bool) list"
  deps_isPresent :: "bool option"
  context_onExitComplete :: "closure option"
  effect_isPresent :: "bool option"

definition newChildrenMap :: "(string \<times> bool) list" where
  "newChildrenMap = []"

definition newPresenceChild :: presence_child where
  "newPresenceChild = \<lparr>presenceChildren = newChildrenMap, deps_isPresent = None,
     context_onExitComplete = None, effect_isPresent = None\<rparr>"

definition depsChanged :: "bool \<Rightarrow> presence_child \<Rightarrow> bool" where
  "depsChanged isPresent s = (deps_isPresent s \<noteq> Some isPresent)"

text \<open>
  Lines 247-282, the render of \<open>PresenceChild\<close> up to its children: both \<open>useMemo\<close> calls
  run again only when \<open>isPresent\<close> differs from the value of the previous render.
\<close>

definition renderPresenceChild :: "bool \<Rightarrow> closure option \<Rightarrow> presence_child \<Rightarrow> presence_child" where
  "renderPresenceChild isPresent onExitCompleteProp s =
     (if depsChanged isPresent s then
        s\<lparr>context_onExitComplete := onExitCompleteProp,
          presenceChildren := map (\<lambda>(k, _). (k, False)) (presenceChildren s),
          deps_isPresent := Some isPresent\<rparr>
      else s)"

text \<open>
  Lines 288-291, the effect as the host runs it after a render: it runs only when
  \<open>isPresent\<close> differs from the value at its previous run (or it never ran), and then calls
  the \<open>onExitComplete\<close> prop of that render if the child is exiting and the map is empty.
  The result is the state with the dependency recorded and the closures called.
\<close>

definition exitEffect ::
  "bool \<Rightarrow> closure option \<Rightarrow> presence_child \<Rightarrow> presence_child \<times> closure list" where
  "exitEffect isPresent onExitCompleteProp s =
     (if effect_isPresent s \<noteq> Some isPresent then
        (s\<lparr>effect_isPresent := Some isPresent\<rparr>,
         if \<not> isPresent \<and> length (presenceChildren s) = 0 then
           (case onExitCompleteProp of None \<Rightarrow> [] | Some c \<Rightarrow> [c])
         else [])
      else (s, []))"

text \<open>Lines 256-264, \<open>context.onExitComplete(childId)\<close>: the new state and the closures called.\<close>

definition reportDone :: "string \<Rightarrow> presence_child \<Rightarrow> presence_child \<times> closure list" where
  "reportDone childId s =
     (let s1 = s\<lparr>presenceChildren := AList.update childId True (presenceChildren s)\<rparr>
      in if \<exists>isComplete \<in> set (map snd (presenceChildren s1)). \<not> isComplete then (s1, [])
         else (s1, case context_onExitComplete s1 of None \<Rightarrow> [] | Some c \<Rightarrow> [c]))"

text \<open>Lines 265-268, \<open>context.register(childId)\<close> and the function it returns.\<close>

definition register :: "string \<Rightarrow> presence_child \<Rightarrow> presence_child" where
  "register childId s = s\<lparr>presenceChildren := AList.update childId False (presenceChildren s)\<rparr>"

definition unregister :: "string \<Rightarrow> presence_child \<Rightarrow> presence_child" where
  "unregister childId s = s\<lparr>presenceChildren := AList.delete childId (presenceChildren s)\<rparr>"

text \<open>The closures a \<open>PresenceChild\<close> calls are run by the coordinator in order.\<close>

fun runClosures :: "closure list \<Rightarrow> coordinator \<Rightarrow> coordinator \<times> event list" where
  "runClosures [] st = (st, [])"
| "runClosures (c # cs) st =
     (let (st1, ev1) = onExit c st; (st2, ev2) = runClosures cs st1 in (st2, ev1 @ ev2))"

text \<open>
  Line 263 calls the closure inside \<open>context.onExitComplete\<close>: a report as the whole system
  sees it, on the pair of the \<open>PresenceChild\<close> and the coordinator.
\<close>

definition hostReportDone ::
  "string \<Rightarrow> presence_child \<times> coordinator \<Rightarrow> (presence_child \<times> coordinator) \<times> event list" where
  "hostReportDone childId sc =
     (let (s1, called) = reportDone childId (fst sc);
          (st1, ev) = runClosures called (snd sc)
      in ((s1, st1), ev))"

section \<open>Scenarios\<close>

text \<open>Concrete children and props for the scenarios of the specification.\<close>

definition childA :: element where "childA = Child (Some ''a'') 1"
definition childB :: element where "childB = Child (Some ''b'') 2"
definition childC :: element where "childC = Child (Some ''c'') 3"

definition scenarioProps :: "element list \<Rightarrow> AnimatePresenceProps" where
  "scenarioProps cs = \<lparr>children = map Element cs, custom = None, initial = True,
     onExitComplete = True, mode = Sync\<rparr>"

text \<open>Children \<open>[a, b, c]\<close>, then \<open>[a, c]\<close>: Scenario A, after the second pass.\<close>

definition oneExiting :: render_result where
  "oneExiting = pass (scenarioProps [childA, childC])
                  (r_state (pass (scenarioProps [childA, childB, childC]) newCoordinator))"

text \<open>Children \<open>[a, b, c]\<close>, then \<open>[c]\<close>: two keys exit in the same pass.\<close>

definition twoExiting :: render_result where
  "twoExiting = pass (scenarioProps [childC])
                  (r_state (pass (scenarioProps [childA, childB, childC]) newCoordinator))"

text \<open>
  The \<open>PresenceChild\<close> of \<open>a\<close> in that scenario: mounted present, one participant \<open>m\<close>
  registered, then rendered exiting with the closure the coordinator gave it.
\<close>

definition exitingA :: presence_child where
  "exitingA = renderPresenceChild False (pc_onExitComplete (r_output twoExiting ! 0))
                (register ''m'' (renderPresenceChild True None newPresenceChild))"

text \<open>Children \<open>[a, b]\<close>, then \<open>[a]\<close>, and the host unmounts the tree while \<open>b\<close> exits.\<close>

definition tornDown :: coordinator where
  "tornDown = (r_state (pass (scenarioProps [childA])
                 (r_state (pass (scenarioProps [childA, childB]) newCoordinator))))\<lparr>isMounted := False\<rparr>"

text \<open>
  A \<open>PresenceChild\<close> with participants \<open>m\<close> and \<open>n\<close>, exiting, of which only \<open>m\<close> has
  reported.
\<close>

definition halfDone :: presence_child where
  "halfDone = fst (reportDone ''m''
                (renderPresenceChild False (Some (OnExit ''a'' 4 3 True))
                  (register ''n'' (register ''m'' (renderPresenceChild True None newPresenceChild)))))"


text \<open>
  Children \<open>[a, b, c]\<close>, then \<open>[b, c]\<close>, then \<open>[c]\<close>, with \<open>a\<close> still exiting at the third
  pass. The \<open>PresenceChild\<close> of \<open>a\<close> is rendered with \<open>isPresent = false\<close> in both later
  passes, so its memoised context keeps the closure of the second pass. Then \<open>b\<close> completes
  through the closure of the third pass and \<open>a\<close> through the one of the second.
\<close>

definition staleRun2 :: render_result where
  "staleRun2 = pass (scenarioProps [childB, childC])
                 (r_state (pass (scenarioProps [childA, childB, childC]) newCoordinator))"

definition staleRun3 :: render_result where
  "staleRun3 = pass (scenarioProps [childC]) (r_state staleRun2)"

definition lingeringA :: presence_child where
  "lingeringA = renderPresenceChild False (pc_onExitComplete (r_output staleRun3 ! 0))
                  (renderPresenceChild False (pc_onExitComplete (r_output staleRun2 ! 0))
                     (register ''m'' (renderPresenceChild True None newPresenceChild)))"

definition staleCommit :: coordinator where
  "staleCommit = fst (onExit (OnExit ''a'' 4 3 True)
                   (fst (onExit (OnExit ''b'' 7 6 True) (r_state staleRun3))))"

section \<open>Well-formed states\<close>

text \<open>
  Every entry of the lookup table is stored under the key of its element: \<open>updateChildLookup\<close>
  is the only writer.
\<close>

definition keyedByOwnKey :: "(ComponentKey \<times> element) list \<Rightarrow> bool" where
  "keyedByOwnKey tbl = (\<forall>(k, child) \<in> set tbl. getChildKey child = k)"

text \<open>The refs exist and \<open>presentChildren\<close> names an array that was allocated.\<close>

definition allocated :: "coordinator \<Rightarrow> bool" where
  "allocated st = (refsCreated st \<and> presentChildren st < nextAddr st)"

section \<open>Facts about the containers\<close>

lemma findIndex_ge: "- 1 \<le> findIndex P xs"
  by (induction xs) (auto simp: Let_def)

lemma findIndex_none: "(findIndex P xs = - 1) = (\<forall>x \<in> set xs. \<not> P x)"
proof (induction xs)
  case Nil
  show ?case by simp
next
  case (Cons x xs)
  have "- 1 \<le> findIndex P xs" by (rule findIndex_ge)
  with Cons show ?case by (auto simp: Let_def)
qed

lemma findIndex_takeWhile:
  "\<exists>x \<in> set xs. P x \<Longrightarrow> findIndex P xs = int (length (takeWhile (\<lambda>x. \<not> P x) xs))"
proof (induction xs)
  case Nil
  then show ?case by simp
next
  case (Cons x xs)
  show ?case
  proof (cases "P x")
    case True
    then show ?thesis by simp
  next
    case False
    with Cons.prems have ex: "\<exists>x \<in> set xs. P x" by auto
    then have "findIndex P xs \<noteq> - 1" by (simp add: findIndex_none)
    with False Cons.IH [OF ex] show ?thesis by (simp add: Let_def)
  qed
qed

lemma indexOf_none: "(indexOf xs k = - 1) = (k \<notin> set xs)"
  by (auto simp: indexOf_def findIndex_none)

lemma indexOf_nth:
  "distinct xs \<Longrightarrow> i < length xs \<Longrightarrow> indexOf xs (xs ! i) = int i"
proof (induction xs arbitrary: i)
  case Nil
  then show ?case by simp
next
  case (Cons x xs)
  show ?case
  proof (cases i)
    case 0
    then show ?thesis by (simp add: indexOf_def)
  next
    case (Suc j)
    with Cons.prems have j: "j < length xs" and d: "distinct xs" and nx: "xs ! j \<noteq> x"
      by auto
    from Cons.IH [OF d j] have "indexOf xs (xs ! j) = int j" .
    with Suc nx show ?thesis by (simp add: indexOf_def Let_def)
  qed
qed

lemma splice_insert:
  "0 \<le> i \<Longrightarrow> nat i \<le> length xs \<Longrightarrow> splice i 0 [x] xs = take (nat i) xs @ x # drop (nat i) xs"
proof -
  assume a: "0 \<le> i" "nat i \<le> length xs"
  then have "i \<le> int (length xs)" by linarith
  with a show ?thesis by (simp add: splice_def Let_def min_def)
qed

lemma splice_remove_found:
  assumes "\<exists>x \<in> set xs. P x"
  shows "splice (findIndex P xs) 1 [] xs
           = takeWhile (\<lambda>x. \<not> P x) xs @ tl (dropWhile (\<lambda>x. \<not> P x) xs)"
proof -
  let ?n = "length (takeWhile (\<lambda>x. \<not> P x) xs)"
  have fi: "findIndex P xs = int ?n" using assms by (rule findIndex_takeWhile)
  have le: "?n \<le> length xs" by (rule length_takeWhile_le)
  have t: "take ?n xs = takeWhile (\<lambda>x. \<not> P x) xs" by (rule takeWhile_eq_take [symmetric])
  have d: "drop ?n xs = dropWhile (\<lambda>x. \<not> P x) xs" by (rule dropWhile_eq_drop [symmetric])
  have "drop (?n + 1) xs = tl (drop ?n xs)" by (simp add: drop_Suc tl_drop)
  then have "splice (int ?n) 1 [] xs = take ?n xs @ tl (drop ?n xs)"
    using le by (simp add: splice_def Let_def min_def)
  then show ?thesis by (simp only: fi t d)
qed

lemma splice_remove_missing:
  "findIndex P xs = - 1 \<Longrightarrow> splice (findIndex P xs) 1 [] xs = butlast xs"
  by (cases xs rule: rev_cases) (auto simp: splice_def Let_def max_def butlast_conv_take)

lemma set_markExiting_aux:
  "set (foldl (\<lambda>exiting k. if indexOf tk k = - 1 then setAdd k exiting else exiting) acc pk)
     = set acc \<union> (set pk - set tk)"
  by (induction pk arbitrary: acc) (auto simp: indexOf_none setAdd_def)

lemma set_markExiting: "set (markExiting pk tk) = set pk - set tk"
  by (simp add: markExiting_def set_markExiting_aux)

lemma distinct_markExiting_aux:
  "distinct acc \<Longrightarrow>
   distinct (foldl (\<lambda>exiting k. if indexOf tk k = - 1 then setAdd k exiting else exiting) acc pk)"
  by (induction pk arbitrary: acc) (auto simp: setAdd_def)

lemma distinct_markExiting: "distinct (markExiting pk tk)"
  by (simp add: markExiting_def distinct_markExiting_aux)

lemma markExiting_filter_aux:
  "distinct (acc @ pk) \<Longrightarrow>
   foldl (\<lambda>exiting k. if indexOf tk k = - 1 then setAdd k exiting else exiting) acc pk
     = acc @ filter (\<lambda>k. k \<notin> set tk) pk"
  by (induction pk arbitrary: acc) (auto simp: indexOf_none setAdd_def)

lemma markExiting_filter:
  "distinct pk \<Longrightarrow> markExiting pk tk = filter (\<lambda>k. k \<notin> set tk) pk"
  by (simp add: markExiting_def markExiting_filter_aux)

section \<open>Facts about keys and the lookup table\<close>

lemma getChildKey_unkeyed: "key c = None \<or> key c = Some '''' \<Longrightarrow> getChildKey c = ''''"
  by (auto simp: getChildKey_def)

lemma getChildKey_keyed: "key c = Some k \<Longrightarrow> getChildKey c = k"
  by (auto simp: getChildKey_def)

lemma map_of_updateChildLookup_other:
  "k \<notin> getChildKey ` set cs \<Longrightarrow> map_of (updateChildLookup cs tbl) k = map_of tbl k"
  unfolding updateChildLookup_def
  by (induction cs arbitrary: tbl) (auto simp: update_conv')

lemma map_of_updateChildLookup_last:
  "\<forall>d \<in> set post. getChildKey d \<noteq> getChildKey c \<Longrightarrow>
   map_of (updateChildLookup (pre @ c # post) tbl) (getChildKey c) = Some c"
proof -
  assume a: "\<forall>d \<in> set post. getChildKey d \<noteq> getChildKey c"
  have "updateChildLookup (pre @ c # post) tbl
          = updateChildLookup post (AList.update (getChildKey c) c (updateChildLookup pre tbl))"
    by (simp add: updateChildLookup_def)
  moreover from a have "getChildKey c \<notin> getChildKey ` set post" by auto
  ultimately show ?thesis by (simp add: map_of_updateChildLookup_other update_conv')
qed

lemma distinct_updateChildLookup:
  "distinct (map fst tbl) \<Longrightarrow> distinct (map fst (updateChildLookup cs tbl))"
  unfolding updateChildLookup_def
  by (induction cs arbitrary: tbl) (simp_all add: distinct_update)

lemma dom_updateChildLookup:
  "fst ` set (updateChildLookup cs tbl) = fst ` set tbl \<union> getChildKey ` set cs"
  unfolding updateChildLookup_def
proof (induction cs arbitrary: tbl)
  case Nil
  show ?case by simp
next
  case (Cons c cs)
  have "fst ` set (AList.update (getChildKey c) c tbl) = insert (getChildKey c) (fst ` set tbl)"
    using dom_update [of "getChildKey c" c tbl] by (simp add: dom_map_of_conv_image_fst)
  with Cons.IH [of "AList.update (getChildKey c) c tbl"] show ?case by auto
qed

section \<open>Facts about one render\<close>

lemma splice_insert_shape:
  "\<exists>n. splice i 0 [w] xs = take n xs @ w # drop n xs"
  by (simp add: splice_def Let_def) blast

lemma getChildKey_keyed_elem [simp]:
  "getChildKey (PresenceChild (Some k) p c i cu m ch) = k"
  by (simp add: getChildKey_def)

lemma getChildKey_exitingChild [simp]: "getChildKey (exitingChild props c child) = getChildKey child"
  by (simp add: exitingChild_def)

lemma getChildKey_presentChild [simp]: "getChildKey (presentChild props child) = getChildKey child"
  by (simp add: presentChild_def)

lemma getChildKey_initialChild [simp]: "getChildKey (initialChild props child) = getChildKey child"
  by (simp add: initialChild_def)

lemma exitingHas_key: "exitingHas ex child \<Longrightarrow> getChildKey child \<in> set ex"
  by (auto simp: exitingHas_def getChildKey_def split: option.splits)

lemma exitingHas_exitingChild [simp]:
  "exitingHas ex (exitingChild props c child) = (getChildKey child \<in> set ex)"
  by (simp add: exitingHas_def exitingChild_def)

lemma spliceExiting_cases:
  obtains (skip) "spliceExiting props tbl pk tk eA fA cr k = cr"
  | (ins) n child where "map_of tbl k = Some child" and "k \<notin> set tk"
      and "spliceExiting props tbl pk tk eA fA cr k
             = take n cr @ exitingChild props (OnExit k eA fA (onExitComplete props)) child # drop n cr"
proof (cases "indexOf tk k \<noteq> - 1 \<or> map_of tbl k = None")
  case True
  then have "spliceExiting props tbl pk tk eA fA cr k = cr"
    by (auto simp: spliceExiting_def)
  then show ?thesis by (rule skip)
next
  case False
  then obtain child where c: "map_of tbl k = Some child" and nk: "k \<notin> set tk"
    by (auto simp: indexOf_none)
  obtain n where "splice (indexOf pk k) 0
       [exitingChild props (OnExit k eA fA (onExitComplete props)) child] cr
     = take n cr @ exitingChild props (OnExit k eA fA (onExitComplete props)) child # drop n cr"
    using splice_insert_shape
      [of "indexOf pk k" "exitingChild props (OnExit k eA fA (onExitComplete props)) child" cr]
    by (elim exE)
  with c nk have "spliceExiting props tbl pk tk eA fA cr k
     = take n cr @ exitingChild props (OnExit k eA fA (onExitComplete props)) child # drop n cr"
    by (simp add: spliceExiting_def indexOf_none Let_def)
  with c nk show ?thesis by (rule ins)
qed

text \<open>What the loop leaves in \<open>childrenToRender\<close>: the target children, in order, with exiting
  elements between them.\<close>

lemma spliced_set:
  "x \<in> set (foldl (spliceExiting props tbl pk tk eA fA) cr ex) \<Longrightarrow>
   x \<in> set cr \<or>
   (\<exists>k child. k \<in> set ex \<and> k \<notin> set tk \<and> map_of tbl k = Some child \<and>
      x = exitingChild props (OnExit k eA fA (onExitComplete props)) child)"
proof (induction ex arbitrary: cr)
  case Nil
  then show ?case by simp
next
  case (Cons k ex)
  from Cons.prems have "x \<in> set (foldl (spliceExiting props tbl pk tk eA fA)
                                  (spliceExiting props tbl pk tk eA fA cr k) ex)"
    by simp
  from Cons.IH [OF this] consider
    (here) "x \<in> set (spliceExiting props tbl pk tk eA fA cr k)"
  | (later) k' child where "k' \<in> set ex" "k' \<notin> set tk" "map_of tbl k' = Some child"
      "x = exitingChild props (OnExit k' eA fA (onExitComplete props)) child"
    by blast
  then show ?case
  proof cases
    case here
    show ?thesis
    proof (cases rule: spliceExiting_cases [of props tbl pk tk eA fA cr k])
      case skip
      with here show ?thesis by simp
    next
      case (ins n child)
      with here have "x \<in> set (take n cr) \<or> x \<in> set (drop n cr)
          \<or> x = exitingChild props (OnExit k eA fA (onExitComplete props)) child"
        by auto
      then show ?thesis
      proof (elim disjE)
        assume "x \<in> set (take n cr)"
        then show ?thesis by (auto dest: in_set_takeD)
      next
        assume "x \<in> set (drop n cr)"
        then show ?thesis by (auto dest: in_set_dropD)
      next
        assume "x = exitingChild props (OnExit k eA fA (onExitComplete props)) child"
        with ins show ?thesis by auto
      qed
    qed
  next
    case later
    then show ?thesis by auto
  qed
qed

lemma spliced_filter:
  assumes "\<And>k child. k \<in> set ex \<Longrightarrow> k \<notin> set tk \<Longrightarrow> map_of tbl k = Some child \<Longrightarrow>
             \<not> R (exitingChild props (OnExit k eA fA (onExitComplete props)) child)"
  shows "filter R (foldl (spliceExiting props tbl pk tk eA fA) cr ex) = filter R cr"
  using assms
proof (induction ex arbitrary: cr)
  case Nil
  show ?case by simp
next
  case (Cons k ex)
  have step: "filter R (spliceExiting props tbl pk tk eA fA cr k) = filter R cr"
  proof (cases rule: spliceExiting_cases [of props tbl pk tk eA fA cr k])
    case skip
    then show ?thesis by simp
  next
    case (ins n child)
    then have "\<not> R (exitingChild props (OnExit k eA fA (onExitComplete props)) child)"
      using Cons.prems [of k child] by simp
    moreover have "filter R (take n cr) @ filter R (drop n cr) = filter R cr"
      by (simp flip: filter_append)
    ultimately show ?thesis using ins by simp
  qed
  have "filter R (foldl (spliceExiting props tbl pk tk eA fA)
                    (spliceExiting props tbl pk tk eA fA cr k) ex)
          = filter R (spliceExiting props tbl pk tk eA fA cr k)"
    by (rule Cons.IH) (use Cons.prems in auto)
  with step show ?case by simp
qed

text \<open>The render of a pass past the first, read off the definition.\<close>

lemma render_later:
  assumes "\<not> isInitialRender st" and "allocated st"
  shows "sets (r_state (render props st)) (r_exiting (render props st))
           = markExiting (presentKeysOf st) (targetKeysOf (onlyElements (children props)))"
    and "r_exiting (render props st) = nextAddr st + 1"
    and "r_filteredChildren (render props st) = nextAddr st"
    and "r_childrenToRender (render props st) = nextAddr st + 2"
    and "r_output (render props st)
           = map (wrapPresent props
                    (markExiting (presentKeysOf st) (targetKeysOf (onlyElements (children props)))))
               (foldl (spliceExiting props (allChildren st) (presentKeysOf st)
                         (targetKeysOf (onlyElements (children props)))
                         (nextAddr st + 1) (nextAddr st))
                  (onlyElements (children props))
                  (markExiting (presentKeysOf st) (targetKeysOf (onlyElements (children props)))))"
    and "arrays (r_state (render props st)) (nextAddr st + 2) = r_output (render props st)"
    and "arrays (r_state (render props st)) (nextAddr st) = onlyElements (children props)"
    and "allChildren (r_state (render props st)) = allChildren st"
    and "presentChildren (r_state (render props st)) = presentChildren st"
    and "isMounted (r_state (render props st)) = isMounted st"
    and "nextAddr (r_state (render props st)) = nextAddr st + 3"
  using assms
  by (simp_all add: render_def Let_def allocated_def presentKeysOf_def cloneElement_def)


lemma keyedByOwnKey_lookup:
  "keyedByOwnKey tbl \<Longrightarrow> map_of tbl k = Some child \<Longrightarrow> getChildKey child = k"
  by (auto simp: keyedByOwnKey_def dest!: map_of_SomeD)

lemma target_child_not_exiting:
  "c \<in> set F \<Longrightarrow> \<not> exitingHas (markExiting pk (targetKeysOf F)) c"
proof
  assume c: "c \<in> set F" and h: "exitingHas (markExiting pk (targetKeysOf F)) c"
  from h have "getChildKey c \<in> set (markExiting pk (targetKeysOf F))" by (rule exitingHas_key)
  then have "getChildKey c \<notin> set (targetKeysOf F)" by (simp add: set_markExiting)
  with c show False by (simp add: targetKeysOf_def)
qed

lemma pc_isPresent_presentChild [simp]: "pc_isPresent (presentChild props c)"
  by (simp add: presentChild_def)

lemma pc_isPresent_exitingChild [simp]: "\<not> pc_isPresent (exitingChild props cl c)"
  by (simp add: exitingChild_def)

lemma pc_onExitComplete_presentChild [simp]: "pc_onExitComplete (presentChild props c) = None"
  by (simp add: presentChild_def)

lemma pc_onExitComplete_exitingChild [simp]: "pc_onExitComplete (exitingChild props cl c) = Some cl"
  by (simp add: exitingChild_def)

lemma render_output_elems:
  assumes ni: "\<not> isInitialRender st" and al: "allocated st"
    and x: "x \<in> set (r_output (render props st))"
  shows "(\<exists>e. x = presentChild props e) \<or>
         (\<exists>k child. k \<in> set (sets (r_state (render props st)) (r_exiting (render props st))) \<and>
            map_of (allChildren st) k = Some child \<and>
            x = exitingChild props
                  (OnExit k (nextAddr st + 1) (nextAddr st) (onExitComplete props)) child)"
proof -
  let ?F = "onlyElements (children props)"
  let ?ex = "markExiting (presentKeysOf st) (targetKeysOf ?F)"
  let ?sp = "foldl (spliceExiting props (allChildren st) (presentKeysOf st) (targetKeysOf ?F)
                      (nextAddr st + 1) (nextAddr st)) ?F ?ex"
  from x obtain e where e: "e \<in> set ?sp" and xe: "x = wrapPresent props ?ex e"
    by (auto simp: render_later(5) [OF ni al])
  show ?thesis
  proof (cases "exitingHas ?ex e")
    case False
    with xe show ?thesis by (auto simp: wrapPresent_def)
  next
    case True
    with target_child_not_exiting have "e \<notin> set ?F" by blast
    with spliced_set [OF e] obtain k child where "k \<in> set ?ex"
      "map_of (allChildren st) k = Some child"
      "e = exitingChild props (OnExit k (nextAddr st + 1) (nextAddr st) (onExitComplete props)) child"
      by blast
    with True xe show ?thesis
      by (auto simp: wrapPresent_def render_later(1) [OF ni al])
  qed
qed

lemma render_output_keyed:
  assumes ni: "\<not> isInitialRender st" and al: "allocated st"
    and kk: "keyedByOwnKey (allChildren st)"
    and x: "x \<in> set (r_output (render props st))"
  shows "(\<exists>c \<in> set (onlyElements (children props)). x = presentChild props c) \<or>
         (\<exists>k child. k \<in> set (sets (r_state (render props st)) (r_exiting (render props st))) \<and>
            map_of (allChildren st) k = Some child \<and> getChildKey child = k \<and>
            x = exitingChild props
                  (OnExit k (nextAddr st + 1) (nextAddr st) (onExitComplete props)) child)"
proof -
  let ?F = "onlyElements (children props)"
  let ?ex = "markExiting (presentKeysOf st) (targetKeysOf ?F)"
  let ?sp = "foldl (spliceExiting props (allChildren st) (presentKeysOf st) (targetKeysOf ?F)
                      (nextAddr st + 1) (nextAddr st)) ?F ?ex"
  from x obtain e where e: "e \<in> set ?sp" and xe: "x = wrapPresent props ?ex e"
    by (auto simp: render_later(5) [OF ni al])
  from spliced_set [OF e] consider (target) "e \<in> set ?F"
    | (exiting) k child where "k \<in> set ?ex" "map_of (allChildren st) k = Some child"
      "e = exitingChild props (OnExit k (nextAddr st + 1) (nextAddr st) (onExitComplete props)) child"
    by blast
  then show ?thesis
  proof cases
    case target
    with target_child_not_exiting have "\<not> exitingHas ?ex e" by blast
    with xe target show ?thesis by (auto simp: wrapPresent_def)
  next
    case exiting
    moreover from kk exiting(2) have "getChildKey child = k" by (rule keyedByOwnKey_lookup)
    ultimately show ?thesis using xe
      by (auto simp: wrapPresent_def render_later(1) [OF ni al])
  qed
qed

lemma filter_wrapPresent:
  "\<forall>e \<in> set xs. exitingHas ex e \<longrightarrow> \<not> pc_isPresent e \<Longrightarrow>
   filter pc_isPresent (map (wrapPresent props ex) xs)
     = map (presentChild props) (filter (\<lambda>e. \<not> exitingHas ex e) xs)"
  by (induction xs) (auto simp: wrapPresent_def)

lemma render_present_nodes:
  assumes ni: "\<not> isInitialRender st" and al: "allocated st"
    and kk: "keyedByOwnKey (allChildren st)"
  shows "filter pc_isPresent (r_output (render props st))
           = map (presentChild props) (onlyElements (children props))"
proof -
  let ?F = "onlyElements (children props)"
  let ?ex = "markExiting (presentKeysOf st) (targetKeysOf ?F)"
  let ?step = "spliceExiting props (allChildren st) (presentKeysOf st) (targetKeysOf ?F)
                      (nextAddr st + 1) (nextAddr st)"
  let ?sp = "foldl ?step ?F ?ex"
  have a: "\<forall>e \<in> set ?sp. exitingHas ?ex e \<longrightarrow> \<not> pc_isPresent e"
  proof (intro ballI impI)
    fix e assume e: "e \<in> set ?sp" and h: "exitingHas ?ex e"
    with target_child_not_exiting have "e \<notin> set ?F" by blast
    with spliced_set [OF e] show "\<not> pc_isPresent e" by auto
  qed
  have "filter (\<lambda>e. \<not> exitingHas ?ex e) ?sp = filter (\<lambda>e. \<not> exitingHas ?ex e) ?F"
  proof (rule spliced_filter)
    fix k child
    assume "k \<in> set ?ex" "map_of (allChildren st) k = Some child"
    moreover from this kk have "getChildKey child = k" by (simp add: keyedByOwnKey_lookup)
    ultimately show "\<not> \<not> exitingHas ?ex
       (exitingChild props (OnExit k (nextAddr st + 1) (nextAddr st) (onExitComplete props)) child)"
      by simp
  qed
  also have "\<dots> = ?F" using target_child_not_exiting by (simp add: filter_id_conv)
  finally have b: "filter (\<lambda>e. \<not> exitingHas ?ex e) ?sp = ?F" .
  show ?thesis
    by (simp only: render_later(5) [OF ni al] filter_wrapPresent [OF a] b)
qed


lemma length_filter_target_le:
  assumes "distinct pk"
  shows "length (filter (\<lambda>k. k \<in> set tk) pk) \<le> length tk"
proof -
  have "distinct (filter (\<lambda>k. k \<in> set tk) pk)" using assms by simp
  then have "length (filter (\<lambda>k. k \<in> set tk) pk) = card (set (filter (\<lambda>k. k \<in> set tk) pk))"
    by (rule distinct_card [symmetric])
  also have "\<dots> \<le> card (set tk)" by (rule card_mono) auto
  also have "\<dots> \<le> length tk" by (rule card_length)
  finally show ?thesis .
qed

lemma spliced_prefix_positions:
  assumes d: "distinct pk"
    and len: "length tk = length F"
  shows "pk = ps @ rest \<Longrightarrow>
     \<forall>k \<in> set ps. k \<notin> set tk \<longrightarrow> map_of tbl k \<noteq> None \<Longrightarrow>
     length (foldl (spliceExiting props tbl pk tk eA fA) F (filter (\<lambda>k. k \<notin> set tk) ps))
       = length F + length (filter (\<lambda>k. k \<notin> set tk) ps) \<and>
     (\<forall>i < length ps. pk ! i \<notin> set tk \<longrightarrow>
        (\<exists>child. map_of tbl (pk ! i) = Some child \<and>
           foldl (spliceExiting props tbl pk tk eA fA) F (filter (\<lambda>k. k \<notin> set tk) ps) ! i
             = exitingChild props (OnExit (pk ! i) eA fA (onExitComplete props)) child))"
proof (induction ps arbitrary: rest rule: rev_induct)
  case Nil
  show ?case by simp
next
  case (snoc k ps)
  let ?step = "spliceExiting props tbl pk tk eA fA"
  let ?P = "\<lambda>k. k \<notin> set tk"
  let ?cr = "foldl ?step F (filter ?P ps)"
  from snoc.prems have pk: "pk = ps @ (k # rest)" by simp
  from snoc.prems have desc': "\<forall>k \<in> set ps. k \<notin> set tk \<longrightarrow> map_of tbl k \<noteq> None" by simp
  note IH = snoc.IH [OF pk desc']
  have nth_k: "pk ! length ps = k" using pk by simp
  show ?case
  proof (cases "k \<in> set tk")
    case True
    then have eq: "filter ?P (ps @ [k]) = filter ?P ps" by simp
    show ?thesis
    proof (intro conjI allI impI)
      show "length (foldl ?step F (filter ?P (ps @ [k]))) = length F + length (filter ?P (ps @ [k]))"
        using IH by (simp only: eq)
    next
      fix i assume i: "i < length (ps @ [k])" and p: "pk ! i \<notin> set tk"
      with True nth_k have "i \<noteq> length ps" by auto
      with i have "i < length ps" by simp
      with IH p have "\<exists>child. map_of tbl (pk ! i) = Some child \<and>
           foldl ?step F (filter ?P ps) ! i
             = exitingChild props (OnExit (pk ! i) eA fA (onExitComplete props)) child"
        by blast
      then show "\<exists>child. map_of tbl (pk ! i) = Some child \<and>
           foldl ?step F (filter ?P (ps @ [k])) ! i
             = exitingChild props (OnExit (pk ! i) eA fA (onExitComplete props)) child"
        by (simp only: eq)
    qed
  next
    case False
    then have eq: "foldl ?step F (filter ?P (ps @ [k])) = ?step ?cr k" by simp
    from False snoc.prems(2) obtain child where child: "map_of tbl k = Some child" by auto
    have idx: "indexOf pk k = int (length ps)"
      using indexOf_nth [OF d, of "length ps"] pk by simp
    have "length ps = length (filter ?P ps) + length (filter (\<lambda>k. k \<in> set tk) ps)"
      using sum_length_filter_compl [of "\<lambda>k. k \<in> set tk" ps] by simp
    moreover have "length (filter (\<lambda>k. k \<in> set tk) ps) \<le> length (filter (\<lambda>k. k \<in> set tk) pk)"
      by (simp add: pk)
    moreover note length_filter_target_le [OF d, of tk]
    ultimately have le: "length ps \<le> length ?cr" using IH len by simp
    have st: "?step ?cr k = take (length ps) ?cr
                @ exitingChild props (OnExit k eA fA (onExitComplete props)) child
                # drop (length ps) ?cr"
      using False child idx le
      by (simp add: spliceExiting_def indexOf_none Let_def splice_insert)
    show ?thesis
    proof (intro conjI allI impI)
      show "length (foldl ?step F (filter ?P (ps @ [k]))) = length F + length (filter ?P (ps @ [k]))"
        using IH False le by (simp only: eq st) simp
    next
      fix i assume i: "i < length (ps @ [k])" and p: "pk ! i \<notin> set tk"
      show "\<exists>child. map_of tbl (pk ! i) = Some child \<and>
           foldl ?step F (filter ?P (ps @ [k])) ! i
             = exitingChild props (OnExit (pk ! i) eA fA (onExitComplete props)) child"
      proof (cases "i = length ps")
        case True
        with le child nth_k show ?thesis
          by (simp only: eq st) (simp add: nth_append)
      next
        case False
        with i have il: "i < length ps" by simp
        with IH p obtain ch where ch: "map_of tbl (pk ! i) = Some ch"
          "?cr ! i = exitingChild props (OnExit (pk ! i) eA fA (onExitComplete props)) ch"
          by blast
        from il le have "(?step ?cr k) ! i = ?cr ! i"
          by (simp only: st) (simp add: nth_append)
        with ch show ?thesis by (simp only: eq) simp
      qed
    qed
  qed
qed

text \<open>A splice at or past position \<open>n\<close> leaves the first \<open>n\<close> elements alone.\<close>

lemma splice_insert_keeps_prefix:
  assumes "int n \<le> i" and "n \<le> length xs"
  shows "take n (splice i 0 [w] xs) = take n xs \<and> length xs \<le> length (splice i 0 [w] xs)"
proof -
  let ?a = "nat (min i (int (length xs)))"
  from assms have a: "n \<le> ?a" "?a \<le> length xs" by auto
  from assms have "splice i 0 [w] xs = take ?a xs @ w # drop ?a xs"
    by (simp add: splice_def Let_def)
  moreover from a have "take n (take ?a xs @ w # drop ?a xs) = take n xs"
    by (simp add: min_absorb2 min_absorb1)
  ultimately show ?thesis by simp
qed

lemma spliced_tail_keeps_prefix:
  assumes "\<forall>k \<in> set ks. int n \<le> indexOf pk k"
  shows "n \<le> length cr \<Longrightarrow>
     take n (foldl (spliceExiting props tbl pk tk eA fA) cr ks) = take n cr \<and>
     length cr \<le> length (foldl (spliceExiting props tbl pk tk eA fA) cr ks)"
  using assms
proof (induction ks arbitrary: cr)
  case Nil
  show ?case by simp
next
  case (Cons k ks)
  let ?step = "spliceExiting props tbl pk tk eA fA"
  from Cons.prems have i: "int n \<le> indexOf pk k" by simp
  have one: "take n (?step cr k) = take n cr \<and> length cr \<le> length (?step cr k)"
    using splice_insert_keeps_prefix [OF i Cons.prems(1)]
    by (simp add: spliceExiting_def Let_def split: option.splits)
  with Cons.prems(1) have "n \<le> length (?step cr k)" by simp
  from Cons.IH [OF this] Cons.prems(2) one show ?case by simp
qed

lemma indexOf_suffix:
  assumes "distinct (ps @ rest)" and "k \<in> set rest"
  shows "int (length ps) \<le> indexOf (ps @ rest) k"
proof -
  from assms(2) obtain j where j: "j < length rest" "rest ! j = k"
    by (auto simp: in_set_conv_nth)
  then have "(ps @ rest) ! (length ps + j) = k" by (simp add: nth_append)
  with indexOf_nth [OF assms(1), of "length ps + j"] j
  have "indexOf (ps @ rest) k = int (length ps + j)" by simp
  then show ?thesis by simp
qed

lemma spliced_position:
  assumes d: "distinct pk"
    and len: "length tk = length F"
    and i: "i < length pk"
    and desc: "\<forall>j \<le> i. pk ! j \<notin> set tk \<longrightarrow> map_of tbl (pk ! j) \<noteq> None"
    and e: "pk ! i \<notin> set tk"
  shows "i < length (foldl (spliceExiting props tbl pk tk eA fA) F (filter (\<lambda>k. k \<notin> set tk) pk)) \<and>
     (\<exists>child. map_of tbl (pk ! i) = Some child \<and>
        foldl (spliceExiting props tbl pk tk eA fA) F (filter (\<lambda>k. k \<notin> set tk) pk) ! i
          = exitingChild props (OnExit (pk ! i) eA fA (onExitComplete props)) child)"
proof -
  let ?step = "spliceExiting props tbl pk tk eA fA"
  let ?P = "\<lambda>k. k \<notin> set tk"
  let ?ps = "take (Suc i) pk"
  let ?rest = "drop (Suc i) pk"
  let ?cr = "foldl ?step F (filter ?P ?ps)"
  have pk: "pk = ?ps @ ?rest" by simp
  have lps: "length ?ps = Suc i" using i by simp
  have dps: "\<forall>k \<in> set ?ps. k \<notin> set tk \<longrightarrow> map_of tbl k \<noteq> None"
  proof
    fix k assume "k \<in> set ?ps"
    then obtain j where "j < Suc i" "?ps ! j = k" using lps by (auto simp: in_set_conv_nth)
    then have "j \<le> i" "pk ! j = k" by auto
    with desc show "k \<notin> set tk \<longrightarrow> map_of tbl k \<noteq> None" by blast
  qed
  from spliced_prefix_positions [OF d len pk dps, of props eA fA]
  have L: "length ?cr = length F + length (filter ?P ?ps)"
    and N: "\<forall>j < length ?ps. pk ! j \<notin> set tk \<longrightarrow>
        (\<exists>child. map_of tbl (pk ! j) = Some child \<and>
           ?cr ! j = exitingChild props (OnExit (pk ! j) eA fA (onExitComplete props)) child)"
    by blast+
  have "length ?ps = length (filter ?P ?ps) + length (filter (\<lambda>k. k \<in> set tk) ?ps)"
    using sum_length_filter_compl [of "\<lambda>k. k \<in> set tk" ?ps] by simp
  moreover have "distinct ?ps" using d by simp
  note length_filter_target_le [OF this, of tk]
  ultimately have le: "Suc i \<le> length ?cr" using L len lps by simp
  have tail: "\<forall>k \<in> set (filter ?P ?rest). int (Suc i) \<le> indexOf pk k"
  proof
    fix k assume "k \<in> set (filter ?P ?rest)"
    then have kr: "k \<in> set ?rest" by simp
    from d have "distinct (?ps @ ?rest)" by simp
    from indexOf_suffix [OF this kr] have "int (length ?ps) \<le> indexOf pk k" by simp
    then show "int (Suc i) \<le> indexOf pk k" by (simp only: lps)
  qed
  have whole: "foldl ?step F (filter ?P pk) = foldl ?step ?cr (filter ?P ?rest)"
  proof -
    have "filter ?P pk = filter ?P ?ps @ filter ?P ?rest"
      by (simp flip: filter_append)
    then show ?thesis by simp
  qed
  from spliced_tail_keeps_prefix [OF tail le, of props tbl tk eA fA]
  have keep: "take (Suc i) (foldl ?step F (filter ?P pk)) = take (Suc i) ?cr"
    and grow: "length ?cr \<le> length (foldl ?step F (filter ?P pk))"
    by (simp_all only: whole)
  from le grow have c1: "i < length (foldl ?step F (filter ?P pk))" by simp
  have "foldl ?step F (filter ?P pk) ! i = take (Suc i) (foldl ?step F (filter ?P pk)) ! i"
    by simp
  also have "\<dots> = ?cr ! i" by (simp only: keep) simp
  finally have same: "foldl ?step F (filter ?P pk) ! i = ?cr ! i" .
  have il: "i < length ?ps" by (simp only: lps lessI)
  from N il e obtain child where "map_of tbl (pk ! i) = Some child"
    "?cr ! i = exitingChild props (OnExit (pk ! i) eA fA (onExitComplete props)) child"
    by blast
  with same c1 show ?thesis by simp
qed

section \<open>Evaluating the scenarios\<close>

lemmas run = pass_def render_def layoutEffect_def newCoordinator_def scenarioProps_def childA_def
  childB_def childC_def Let_def markExiting_def indexOf_def setAdd_def setDelete_def getChildKey_def
  updateChildLookup_def spliceExiting_def splice_def wrapPresent_def cloneElement_def onExit_def
  presentKeysOf_def targetKeysOf_def initialChild_def exitingChild_def presentChild_def
  exitingHas_def renderPresenceChild_def register_def reportDone_def
  newPresenceChild_def newChildrenMap_def depsChanged_def exitEffect_def hostReportDone_def

section \<open>Facts about completion\<close>

lemma alist_update_idem: "AList.update k v (AList.update k v xs) = AList.update k v xs"
  by (induction xs) auto

lemma reportDone_twice:
  "reportDone childId (fst (reportDone childId s)) = reportDone childId s"
  by (simp add: reportDone_def Let_def alist_update_idem)

lemma onExit_allChildren:
  "allChildren (fst (onExit c st)) = AList.delete (cl_key c) (allChildren st)"
  by (simp add: onExit_def Let_def)

lemma onExit_sets:
  "sets (fst (onExit c st)) = (sets st)(cl_exiting c := setDelete (cl_key c) (sets st (cl_exiting c)))"
  by (simp add: onExit_def Let_def)

lemma onExit_twice_table_sets:
  "allChildren (fst (onExit c (fst (onExit c st)))) = allChildren (fst (onExit c st)) \<and>
   sets (fst (onExit c (fst (onExit c st)))) = sets (fst (onExit c st))"
  by (simp add: onExit_allChildren onExit_sets delete_idem setDelete_def)

lemma reportDone_called: "snd (reportDone childId s) = [] \<or> (\<exists>c. snd (reportDone childId s) = [c])"
  by (simp add: reportDone_def Let_def split: option.splits)

lemma onExit_presentChildren_array:
  "arrays (fst (onExit c st)) (presentChildren st)
     = splice (findIndex (\<lambda>presentChild. key presentChild = Some (cl_key c))
                 (arrays st (presentChildren st))) 1 []
         (arrays st (presentChildren st))"
  by (simp add: onExit_def Let_def)

lemma onExit_other_array:
  "a \<noteq> presentChildren st \<Longrightarrow> arrays (fst (onExit c st)) a = arrays st a"
  by (simp add: onExit_def Let_def)

lemma onExit_drained:
  "setDelete (cl_key c) (sets st (cl_exiting c)) = [] \<Longrightarrow>
   presentChildren (fst (onExit c st)) = cl_filteredChildren c \<and>
   snd (onExit c st) = (if isMounted st
                        then ForceRender # (if cl_onExitComplete c then [ExitComplete] else [])
                        else [])"
  by (simp add: onExit_def Let_def)

lemma onExit_pending:
  "setDelete (cl_key c) (sets st (cl_exiting c)) \<noteq> [] \<Longrightarrow>
   presentChildren (fst (onExit c st)) = presentChildren st \<and> snd (onExit c st) = []"
  by (simp add: onExit_def Let_def)

lemma onExit_isMounted: "isMounted (fst (onExit c st)) = isMounted st"
  by (simp add: onExit_def Let_def)

lemma map_of_delete_self: "map_of (AList.delete k xs) k = None"
  by (simp add: delete_conv')

section \<open>Claims about completion\<close>

lemma registry_entries:
  assumes "distinct (map fst ps)"
  shows "((other, done) \<in> set (AList.update k True ps))
           = (if other = k then done else map_of ps other = Some done)"
proof -
  from assms have "distinct (map fst (AList.update k True ps))" by (rule distinct_update)
  then have "((other, done) \<in> set (AList.update k True ps))
               = (map_of (AList.update k True ps) other = Some done)"
    by simp
  then show ?thesis by (simp add: update_conv')
qed

lemma all_complete_after_report:
  assumes "distinct (map fst ps)"
  shows "(\<exists>isComplete \<in> set (map snd (AList.update k True ps)). \<not> isComplete)
           = (\<exists>other. other \<noteq> k \<and> map_of ps other = Some False)"
proof
  assume "\<exists>isComplete \<in> set (map snd (AList.update k True ps)). \<not> isComplete"
  then obtain other where "(other, False) \<in> set (AList.update k True ps)" by force
  then show "\<exists>other. other \<noteq> k \<and> map_of ps other = Some False"
    by (auto simp: registry_entries [OF assms] split: if_splits)
next
  assume "\<exists>other. other \<noteq> k \<and> map_of ps other = Some False"
  then obtain other where "other \<noteq> k" "map_of ps other = Some False" by blast
  then have "(other, False) \<in> set (AList.update k True ps)"
    by (simp add: registry_entries [OF assms])
  then show "\<exists>isComplete \<in> set (map snd (AList.update k True ps)). \<not> isComplete"
    by force
qed

lemma reportDone_calls:
  assumes "distinct (map fst (presenceChildren s))"
  shows "snd (reportDone childId s)
           = (if \<exists>other. other \<noteq> childId \<and> map_of (presenceChildren s) other = Some False
              then []
              else (case context_onExitComplete s of None \<Rightarrow> [] | Some c \<Rightarrow> [c]))"
proof -
  have "snd (reportDone childId s)
          = (if \<exists>isComplete \<in> set (map snd (AList.update childId True (presenceChildren s))).
                  \<not> isComplete
             then []
             else (case context_onExitComplete s of None \<Rightarrow> [] | Some c \<Rightarrow> [c]))"
    by (simp add: reportDone_def Let_def)
  then show ?thesis by (simp only: all_complete_after_report [OF assms])
qed

text \<open>
  C1, as the code has it. A report marks its id done and then calls the callback held by the
  context exactly when no other registered id is still running (the registry being a map, its
  ids are distinct); nothing records that the callback was called. A second \<open>reportDone\<close>
  for the same id leaves the registry as the first left it and calls the same closures
  again: when the first report found all participants done, both reports call the callback,
  and the first runs \<open>onExit\<close> on the coordinator. Run twice, the closure leaves the lookup
  table and every \<open>exiting\<close> set as one run leaves them. Nothing is said here about
  \<open>presentChildren\<close>.
\<close>

theorem double_reportDone:
  "fst (fst (hostReportDone childId (fst (hostReportDone childId (s, st)))))
     = fst (fst (hostReportDone childId (s, st))) \<and>
   snd (reportDone childId (fst (reportDone childId s))) = snd (reportDone childId s) \<and>
   allChildren (snd (fst (hostReportDone childId (fst (hostReportDone childId (s, st))))))
     = allChildren (snd (fst (hostReportDone childId (s, st)))) \<and>
   sets (snd (fst (hostReportDone childId (fst (hostReportDone childId (s, st))))))
     = sets (snd (fst (hostReportDone childId (s, st)))) \<and>
   (distinct (map fst (presenceChildren s)) \<longrightarrow>
      snd (reportDone childId s)
        = (if \<exists>other. other \<noteq> childId \<and> map_of (presenceChildren s) other = Some False
           then []
           else (case context_onExitComplete s of None \<Rightarrow> [] | Some c \<Rightarrow> [c]))) \<and>
   (distinct (map fst (presenceChildren s)) \<and>
    (\<forall>other. other \<noteq> childId \<longrightarrow> map_of (presenceChildren s) other \<noteq> Some False) \<and>
    context_onExitComplete s = Some c \<longrightarrow>
      snd (reportDone childId s) = [c] \<and>
      snd (reportDone childId (fst (reportDone childId s))) = [c] \<and>
      hostReportDone childId (s, st)
        = ((fst (reportDone childId s), fst (onExit c st)), snd (onExit c st)) \<and>
      hostReportDone childId (fst (hostReportDone childId (s, st)))
        = ((fst (reportDone childId s), fst (onExit c (fst (onExit c st)))),
           snd (onExit c (fst (onExit c st)))))"
proof -
  have h: "fst (hostReportDone childId (s', st'))
             = (fst (reportDone childId s'), fst (runClosures (snd (reportDone childId s')) st'))"
    for s' st'
    by (simp add: hostReportDone_def split: prod.splits)
  have idem: "fst (fst (hostReportDone childId (fst (hostReportDone childId (s, st)))))
       = fst (fst (hostReportDone childId (s, st))) \<and>
     snd (reportDone childId (fst (reportDone childId s))) = snd (reportDone childId s) \<and>
     allChildren (snd (fst (hostReportDone childId (fst (hostReportDone childId (s, st))))))
       = allChildren (snd (fst (hostReportDone childId (s, st)))) \<and>
     sets (snd (fst (hostReportDone childId (fst (hostReportDone childId (s, st))))))
       = sets (snd (fst (hostReportDone childId (s, st))))"
    using reportDone_called [of childId s]
  proof
    assume e: "snd (reportDone childId s) = []"
    then show ?thesis by (simp add: h reportDone_twice)
  next
    assume "\<exists>c. snd (reportDone childId s) = [c]"
    then obtain c where c: "snd (reportDone childId s) = [c]" ..
    have r: "fst (runClosures [c] st') = fst (onExit c st')" for st'
      by (simp split: prod.splits)
    from c show ?thesis by (simp add: h reportDone_twice r onExit_twice_table_sets)
  qed
  have rule: "distinct (map fst (presenceChildren s)) \<longrightarrow>
      snd (reportDone childId s)
        = (if \<exists>other. other \<noteq> childId \<and> map_of (presenceChildren s) other = Some False
           then []
           else (case context_onExitComplete s of None \<Rightarrow> [] | Some c \<Rightarrow> [c]))"
    by (simp add: reportDone_calls)
  have both: "distinct (map fst (presenceChildren s)) \<and>
    (\<forall>other. other \<noteq> childId \<longrightarrow> map_of (presenceChildren s) other \<noteq> Some False) \<and>
    context_onExitComplete s = Some c \<longrightarrow>
      snd (reportDone childId s) = [c] \<and>
      snd (reportDone childId (fst (reportDone childId s))) = [c] \<and>
      hostReportDone childId (s, st)
        = ((fst (reportDone childId s), fst (onExit c st)), snd (onExit c st)) \<and>
      hostReportDone childId (fst (hostReportDone childId (s, st)))
        = ((fst (reportDone childId s), fst (onExit c (fst (onExit c st)))),
           snd (onExit c (fst (onExit c st))))"
  proof (intro impI, elim conjE)
    assume d: "distinct (map fst (presenceChildren s))"
      and a: "\<forall>other. other \<noteq> childId \<longrightarrow> map_of (presenceChildren s) other \<noteq> Some False"
      and cb: "context_onExitComplete s = Some c"
    from a have n: "\<not> (\<exists>other. other \<noteq> childId \<and> map_of (presenceChildren s) other = Some False)"
      by blast
    have one: "snd (reportDone childId s) = [c]"
      by (simp only: reportDone_calls [OF d] n if_False cb option.simps)
    then have two: "snd (reportDone childId (fst (reportDone childId s))) = [c]"
      by (simp add: reportDone_twice)
    have hr: "hostReportDone childId (s', st')
        = ((fst (reportDone childId s'), fst (onExit c st')), snd (onExit c st'))"
      if "snd (reportDone childId s') = [c]" for s' st'
    proof -
      have "hostReportDone childId (s', st')
          = ((fst (reportDone childId s'), fst (runClosures (snd (reportDone childId s')) st')),
             snd (runClosures (snd (reportDone childId s')) st'))"
        by (simp add: hostReportDone_def split: prod.splits)
      moreover have "runClosures [c] st' = (fst (onExit c st'), snd (onExit c st'))"
        by (simp split: prod.splits)
      ultimately show ?thesis using that by simp
    qed
    have first: "hostReportDone childId (s, st)
        = ((fst (reportDone childId s), fst (onExit c st)), snd (onExit c st))"
      using one by (rule hr)
    have second: "hostReportDone childId (fst (hostReportDone childId (s, st)))
        = ((fst (reportDone childId s), fst (onExit c (fst (onExit c st)))),
           snd (onExit c (fst (onExit c st))))"
      using hr [OF two, of "fst (onExit c st)"] by (simp add: first reportDone_twice)
    from one two first second
    show "snd (reportDone childId s) = [c] \<and>
      snd (reportDone childId (fst (reportDone childId s))) = [c] \<and>
      hostReportDone childId (s, st)
        = ((fst (reportDone childId s), fst (onExit c st)), snd (onExit c st)) \<and>
      hostReportDone childId (fst (hostReportDone childId (s, st)))
        = ((fst (reportDone childId s), fst (onExit c (fst (onExit c st)))),
           snd (onExit c (fst (onExit c st))))"
      by blast
  qed
  from idem rule both show ?thesis by blast
qed

text \<open>
  With \<open>a\<close> and \<open>b\<close> exiting and \<open>m\<close> the only participant of \<open>a\<close>: both reports of \<open>m\<close> call
  the closure of \<open>a\<close>, and the table holds \<open>b\<close> and \<open>c\<close> after one report as after two.
\<close>

theorem double_reportDone_witness:
  "snd (reportDone ''m'' exitingA) = [OnExit ''a'' 4 3 True] \<and>
   snd (reportDone ''m'' (fst (reportDone ''m'' exitingA))) = [OnExit ''a'' 4 3 True] \<and>
   allChildren (snd (fst (hostReportDone ''m'' (exitingA, r_state twoExiting))))
     = [(''b'', childB), (''c'', childC)] \<and>
   allChildren (snd (fst (hostReportDone ''m'' (fst (hostReportDone ''m'' (exitingA, r_state twoExiting))))))
     = [(''b'', childB), (''c'', childC)]"
proof -
  have d: "distinct (map fst (presenceChildren exitingA)) \<and>
    (\<forall>other. other \<noteq> ''m'' \<longrightarrow> map_of (presenceChildren exitingA) other \<noteq> Some False) \<and>
    context_onExitComplete exitingA = Some (OnExit ''a'' 4 3 True)"
    by (simp add: run twoExiting_def exitingA_def)
  from double_reportDone [of "''m''" exitingA "r_state twoExiting" "OnExit ''a'' 4 3 True"] d
  have calls: "snd (reportDone ''m'' exitingA) = [OnExit ''a'' 4 3 True] \<and>
    snd (reportDone ''m'' (fst (reportDone ''m'' exitingA))) = [OnExit ''a'' 4 3 True]"
    by blast
  have tables: "allChildren (snd (fst (hostReportDone ''m'' (exitingA, r_state twoExiting))))
       = [(''b'', childB), (''c'', childC)] \<and>
     allChildren (snd (fst (hostReportDone ''m''
         (fst (hostReportDone ''m'' (exitingA, r_state twoExiting))))))
       = [(''b'', childB), (''c'', childC)]"
    by (simp add: run twoExiting_def exitingA_def)
  from calls tables show ?thesis by blast
qed

text \<open>
  C1 as stated fails. With \<open>a\<close> and \<open>b\<close> both exiting and \<open>c\<close> present, the participant
  \<open>m\<close> of \<open>a\<close> reports twice: the closure of \<open>a\<close> is called on both reports, and the
  second call, finding no element keyed \<open>a\<close>, splices at \<open>-1\<close> and drops \<open>c\<close> from
  \<open>presentChildren\<close>.
\<close>

theorem double_reportDone_counterexample:
  "snd (reportDone ''m'' exitingA) = [OnExit ''a'' 4 3 True] \<and>
   snd (reportDone ''m'' (fst (reportDone ''m'' exitingA))) = [OnExit ''a'' 4 3 True] \<and>
   arrays (snd (fst (hostReportDone ''m'' (exitingA, r_state twoExiting)))) 5
     = [exitingChild (scenarioProps [childC]) (OnExit ''b'' 4 3 True) childB,
        presentChild (scenarioProps [childC]) childC] \<and>
   arrays (snd (fst (hostReportDone ''m'' (fst (hostReportDone ''m'' (exitingA, r_state twoExiting)))))) 5
     = [exitingChild (scenarioProps [childC]) (OnExit ''b'' 4 3 True) childB] \<and>
   presentChildren (snd (fst (hostReportDone ''m'' (exitingA, r_state twoExiting)))) = 5 \<and>
   presentChildren (snd (fst (hostReportDone ''m'' (fst (hostReportDone ''m'' (exitingA, r_state twoExiting)))))) = 5"
  by (simp add: run twoExiting_def exitingA_def)

text \<open>
  C2, as the code has it. When the closure of key \<open>k\<close> runs and an element keyed \<open>k\<close> is in
  \<open>presentChildren\<close>: the key leaves the lookup table and the closure's \<open>exiting\<close> set, and
  the first element keyed \<open>k\<close> is spliced out. If that set is then empty,
  \<open>presentChildren\<close> becomes the closure's \<open>filteredChildren\<close>; a mounted component then
  asks for a render and calls \<open>onExitComplete\<close> if it was supplied, an unmounted one does
  neither. If the set is not empty nothing more happens.
\<close>

theorem onExit_completion:
  assumes "Some k \<in> key ` set (arrays st (presentChildren st))"
  shows "map_of (allChildren (fst (onExit (OnExit k e f g) st))) k = None \<and>
    k \<notin> set (sets (fst (onExit (OnExit k e f g) st)) e) \<and>
    (\<exists>ys x zs. arrays st (presentChildren st) = ys @ x # zs \<and> key x = Some k \<and>
       (\<forall>y \<in> set ys. key y \<noteq> Some k) \<and>
       arrays (fst (onExit (OnExit k e f g) st)) (presentChildren st) = ys @ zs) \<and>
    (sets (fst (onExit (OnExit k e f g) st)) e = [] \<longrightarrow>
       presentChildren (fst (onExit (OnExit k e f g) st)) = f \<and>
       (f \<noteq> presentChildren st \<longrightarrow> arrays (fst (onExit (OnExit k e f g) st)) f = arrays st f) \<and>
       snd (onExit (OnExit k e f g) st)
         = (if isMounted st then ForceRender # (if g then [ExitComplete] else []) else [])) \<and>
    (sets (fst (onExit (OnExit k e f g) st)) e \<noteq> [] \<longrightarrow>
       presentChildren (fst (onExit (OnExit k e f g) st)) = presentChildren st \<and>
       snd (onExit (OnExit k e f g) st) = [])"
proof -
  let ?c = "OnExit k e f g"
  let ?xs = "arrays st (presentChildren st)"
  let ?P = "\<lambda>presentChild. key presentChild = Some k"
  from assms have ex: "\<exists>x \<in> set ?xs. ?P x" by force
  have s: "sets (fst (onExit ?c st)) e = setDelete k (sets st e)"
    by (simp add: onExit_sets)
  have arr: "arrays (fst (onExit ?c st)) (presentChildren st)
               = takeWhile (\<lambda>x. \<not> ?P x) ?xs @ tl (dropWhile (\<lambda>x. \<not> ?P x) ?xs)"
    using splice_remove_found [OF ex] by (simp add: onExit_presentChildren_array)
  from ex have ne: "dropWhile (\<lambda>x. \<not> ?P x) ?xs \<noteq> []" by (simp add: dropWhile_eq_Nil_conv)
  then obtain x zs where xz: "dropWhile (\<lambda>x. \<not> ?P x) ?xs = x # zs" by (cases "dropWhile (\<lambda>x. \<not> ?P x) ?xs") auto
  then have px: "?P x" using hd_dropWhile [OF ne] by simp
  have split: "?xs = takeWhile (\<lambda>x. \<not> ?P x) ?xs @ x # zs"
    using takeWhile_dropWhile_id [of "\<lambda>x. \<not> ?P x" ?xs] by (simp add: xz)
  have pre: "\<forall>y \<in> set (takeWhile (\<lambda>x. \<not> ?P x) ?xs). key y \<noteq> Some k"
    by (auto dest: set_takeWhileD)
  have c3: "\<exists>ys x zs. ?xs = ys @ x # zs \<and> key x = Some k \<and> (\<forall>y \<in> set ys. key y \<noteq> Some k) \<and>
       arrays (fst (onExit ?c st)) (presentChildren st) = ys @ zs"
    using split px pre arr xz by (metis list.sel(3))
  have c1: "map_of (allChildren (fst (onExit ?c st))) k = None"
    by (simp add: onExit_allChildren map_of_delete_self)
  have c2: "k \<notin> set (sets (fst (onExit ?c st)) e)"
    by (simp add: s setDelete_def)
  have c4: "sets (fst (onExit ?c st)) e = [] \<longrightarrow>
       presentChildren (fst (onExit ?c st)) = f \<and>
       (f \<noteq> presentChildren st \<longrightarrow> arrays (fst (onExit ?c st)) f = arrays st f) \<and>
       snd (onExit ?c st) = (if isMounted st then ForceRender # (if g then [ExitComplete] else []) else [])"
    using onExit_drained [of ?c st] onExit_other_array [of f st ?c] by (simp add: s)
  have c5: "sets (fst (onExit ?c st)) e \<noteq> [] \<longrightarrow>
       presentChildren (fst (onExit ?c st)) = presentChildren st \<and> snd (onExit ?c st) = []"
    using onExit_pending [of ?c st] by (simp add: s)
  from c1 c2 c3 c4 c5 show ?thesis by blast
qed

theorem onExit_completion_witness:
  "arrays (fst (onExit (OnExit ''b'' 4 3 True) (r_state oneExiting))) 3
     = [childA, childC] \<and>
   presentChildren (fst (onExit (OnExit ''b'' 4 3 True) (r_state oneExiting))) = 3 \<and>
   snd (onExit (OnExit ''b'' 4 3 True) (r_state oneExiting)) = [ForceRender, ExitComplete]"
proof -
  have h: "Some ''b'' \<in> key ` set (arrays (r_state oneExiting) (presentChildren (r_state oneExiting)))"
    by (simp add: run oneExiting_def)
  from onExit_completion [OF h, of 4 3 True] show ?thesis
    by (simp add: run oneExiting_def)
qed

text \<open>
  C2 as stated fails on the exit callback: here \<open>b\<close> is the only exiting key, its closure
  empties the \<open>exiting\<close> set, and on the unmounted component neither the render request nor
  \<open>onExitComplete\<close> is made.
\<close>

theorem onExit_unmounted_counterexample:
  "pc_onExitComplete (arrays tornDown (presentChildren tornDown) ! 1) = Some (OnExit ''b'' 4 3 True) \<and>
   sets (fst (onExit (OnExit ''b'' 4 3 True) tornDown)) 4 = [] \<and>
   snd (onExit (OnExit ''b'' 4 3 True) tornDown) = []"
  by (simp add: run tornDown_def)

section \<open>Facts about a pass and about PresenceChild\<close>

lemma pass_output: "r_output (pass props st) = r_output (render props st)"
  and pass_exiting: "r_exiting (pass props st) = r_exiting (render props st)"
  and pass_filteredChildren: "r_filteredChildren (pass props st) = r_filteredChildren (render props st)"
  and pass_state: "r_state (pass props st) = layoutEffect (render props st)"
  by (simp_all add: pass_def Let_def)

lemma layoutEffect_fields:
  "sets (layoutEffect r) = sets (r_state r)"
  "arrays (layoutEffect r) = arrays (r_state r)"
  "nextAddr (layoutEffect r) = nextAddr (r_state r)"
  "refsCreated (layoutEffect r) = refsCreated (r_state r)"
  "isMounted (layoutEffect r) = isMounted (r_state r)"
  "\<not> isInitialRender (layoutEffect r)"
  "presentChildren (layoutEffect r) = r_childrenToRender r"
  "allChildren (layoutEffect r)
     = updateChildLookup (arrays (r_state r) (r_filteredChildren r)) (allChildren (r_state r))"
  by (simp_all add: layoutEffect_def Let_def)

text \<open>The render of the initial pass, read off the definition.\<close>

lemma render_initial:
  assumes "isInitialRender st"
  shows "sets (r_state (render props st)) (r_exiting (render props st)) = []"
    and "r_output (render props st) = map (initialChild props) (onlyElements (children props))"
    and "r_childrenToRender (render props st) = nextAddr st"
    and "r_filteredChildren (render props st) = nextAddr st"
    and "arrays (r_state (render props st)) (nextAddr st) = onlyElements (children props)"
    and "allChildren (r_state (render props st)) = allChildren st"
    and "nextAddr (r_state (render props st)) = nextAddr st + 3"
    and "refsCreated (r_state (render props st))"
  using assms by (simp_all add: render_def Let_def)

lemma render_common:
  "refsCreated (r_state (render props st))"
  "nextAddr (r_state (render props st)) = nextAddr st + 3"
  "r_filteredChildren (render props st) = nextAddr st"
  "arrays (r_state (render props st)) (nextAddr st) = onlyElements (children props)"
  "allChildren (r_state (render props st)) = allChildren st"
  "r_childrenToRender (render props st) = nextAddr st \<or> r_childrenToRender (render props st) = nextAddr st + 2"
  by (simp_all add: render_def Let_def)

lemma pass_allocated: "allocated (r_state (pass props st))"
  using render_common(6) [of props st]
  by (auto simp: allocated_def pass_state layoutEffect_fields render_common)

text \<open>After a pass whose \<open>exiting\<close> set is empty, the committed keys are the target keys.\<close>

lemma pass_quiet_presentKeys:
  assumes "sets (r_state (pass props st)) (r_exiting (pass props st)) = []"
  shows "presentKeysOf (r_state (pass props st)) = targetKeysOf (onlyElements (children props))"
proof (cases "isInitialRender st")
  case True
  then show ?thesis
    by (simp add: presentKeysOf_def targetKeysOf_def pass_state layoutEffect_fields
        render_initial)
next
  case False
  with assms show ?thesis
    by (simp add: presentKeysOf_def targetKeysOf_def pass_def layoutEffect_def render_def Let_def
        wrapPresent_def exitingHas_def comp_def split: option.splits)
qed

lemma reportDone_no_callback:
  "context_onExitComplete s = None \<Longrightarrow> snd (reportDone childId s) = []"
  by (simp add: reportDone_def Let_def)

lemma hostReportDone_no_callback:
  assumes "context_onExitComplete s = None"
  shows "snd (hostReportDone childId (s, st)) = []"
proof -
  from assms have "snd (reportDone childId s) = []" by (rule reportDone_no_callback)
  moreover have "snd (hostReportDone childId (s, st))
      = snd (runClosures (snd (reportDone childId s)) st)"
    by (simp add: hostReportDone_def split: prod.splits)
  ultimately show ?thesis by simp
qed

lemma recorded_iff: "(map_of tbl k \<noteq> None) = (k \<in> fst ` set tbl)"
  by (simp add: map_of_eq_None_iff)

lemma in_set_alist_update:
  "(a, b) \<in> set (AList.update k v tbl) \<Longrightarrow> (a, b) = (k, v) \<or> (a, b) \<in> set tbl"
  by (induction tbl) (auto split: if_splits)

lemma keyedByOwnKey_update:
  "keyedByOwnKey tbl \<Longrightarrow> keyedByOwnKey (AList.update (getChildKey c) c tbl)"
  by (auto simp: keyedByOwnKey_def dest!: in_set_alist_update)

lemma keyedByOwnKey_updateChildLookup:
  "keyedByOwnKey tbl \<Longrightarrow> keyedByOwnKey (updateChildLookup cs tbl)"
  unfolding updateChildLookup_def
  by (induction cs arbitrary: tbl) (simp_all add: keyedByOwnKey_update)

lemma recorded_updateChildLookup:
  "map_of tbl k \<noteq> None \<or> k \<in> getChildKey ` set cs \<Longrightarrow>
   map_of (updateChildLookup cs tbl) k \<noteq> None"
  unfolding recorded_iff dom_updateChildLookup by auto

lemma getChildKey_nonempty:
  "key d \<noteq> None \<Longrightarrow> key d \<noteq> Some '''' \<Longrightarrow> getChildKey d \<noteq> ''''"
  by (auto simp: getChildKey_def split: option.splits)

lemma one_entry_per_key:
  "distinct (map fst xs) \<Longrightarrow> k \<in> fst ` set xs \<Longrightarrow> length (filter (\<lambda>e. fst e = k) xs) = 1"
proof (induction xs)
  case Nil
  then show ?case by simp
next
  case (Cons x xs)
  show ?case
  proof (cases "fst x = k")
    case True
    with Cons.prems have "k \<notin> fst ` set xs" by auto
    then have "filter (\<lambda>e. fst e = k) xs = []" by (auto simp: filter_empty_conv)
    with True show ?thesis by simp
  next
    case False
    with Cons show ?thesis by auto
  qed
qed

lemma distinct_count_le_one: "distinct xs \<Longrightarrow> length (filter (\<lambda>x. x = k) xs) \<le> 1"
  by (induction xs) (auto simp: filter_empty_conv)

section \<open>Claims about the render\<close>



text \<open>
  C4. Every element a later pass renders with \<open>isPresent = false\<close> carries the \<open>onExit\<close>
  closure of one of that pass's exiting keys. Take a \<open>PresenceChild\<close> rendered from it whose
  effect has not yet run with \<open>isPresent = false\<close>, so that this run is the first one after
  the flip, and whose registry is empty: the effect calls that closure at once, with no report
  and no further pass, and the closure removes the key from the lookup table of the committed
  state. The effect then has its dependency recorded and calls nothing when run again while
  the child stays exiting.
\<close>

theorem zero_registrant_shortcut:
  assumes ni: "\<not> isInitialRender st" and al: "allocated st"
    and x: "x \<in> set (r_output (render props st))"
    and ex: "\<not> pc_isPresent x"
    and f: "effect_isPresent s \<noteq> Some False"
    and z: "presenceChildren s = []"
  shows "\<exists>k. k \<in> set (sets (r_state (render props st)) (r_exiting (render props st))) \<and>
     pc_onExitComplete x
       = Some (OnExit k (r_exiting (render props st)) (r_filteredChildren (render props st))
                 (onExitComplete props)) \<and>
     snd (exitEffect (pc_isPresent x) (pc_onExitComplete x) s)
       = [OnExit k (r_exiting (render props st)) (r_filteredChildren (render props st))
            (onExitComplete props)] \<and>
     map_of (allChildren (fst (runClosures
                (snd (exitEffect (pc_isPresent x) (pc_onExitComplete x) s))
                (layoutEffect (render props st))))) k = None \<and>
     effect_isPresent (fst (exitEffect (pc_isPresent x) (pc_onExitComplete x) s)) = Some False \<and>
     snd (exitEffect (pc_isPresent x) (pc_onExitComplete x)
            (fst (exitEffect (pc_isPresent x) (pc_onExitComplete x) s))) = []"
proof -
  from render_output_elems [OF ni al x] ex obtain k child where
    k: "k \<in> set (sets (r_state (render props st)) (r_exiting (render props st)))"
    and xe: "x = exitingChild props
                  (OnExit k (nextAddr st + 1) (nextAddr st) (onExitComplete props)) child"
    by auto
  let ?c = "OnExit k (nextAddr st + 1) (nextAddr st) (onExitComplete props)"
  have eff: "snd (exitEffect (pc_isPresent x) (pc_onExitComplete x) s) = [?c]"
    using z f by (simp add: xe exitEffect_def)
  have dep: "effect_isPresent (fst (exitEffect (pc_isPresent x) (pc_onExitComplete x) s))
               = Some False"
    using f by (simp add: xe exitEffect_def)
  have again: "snd (exitEffect (pc_isPresent x) (pc_onExitComplete x)
            (fst (exitEffect (pc_isPresent x) (pc_onExitComplete x) s))) = []"
    using f by (simp add: xe exitEffect_def)
  have "fst (runClosures [?c] (layoutEffect (render props st)))
          = fst (onExit ?c (layoutEffect (render props st)))"
    by (simp split: prod.splits)
  then have "map_of (allChildren (fst (runClosures [?c] (layoutEffect (render props st))))) k = None"
    by (simp add: onExit_allChildren map_of_delete_self)
  with k eff dep again show ?thesis
    by (auto simp: xe render_later(2,3) [OF ni al])
qed

text \<open>
  Scenario A: the \<open>PresenceChild\<close> of \<open>b\<close> was mounted present and its effect ran; rendered
  from the exiting element of the second pass, its effect calls the closure of \<open>b\<close>.
\<close>

theorem zero_registrant_shortcut_witness:
  "snd (exitEffect False (Some (OnExit ''b'' 4 3 True))
          (renderPresenceChild False (Some (OnExit ''b'' 4 3 True))
             (fst (exitEffect True None (renderPresenceChild True None newPresenceChild)))))
     = [OnExit ''b'' 4 3 True] \<and>
   pc_onExitComplete (r_output (render (scenarioProps [childA, childC])
        (r_state (pass (scenarioProps [childA, childB, childC]) newCoordinator))) ! 1)
     = Some (OnExit ''b'' 4 3 True)"
proof -
  let ?st = "r_state (pass (scenarioProps [childA, childB, childC]) newCoordinator)"
  let ?props = "scenarioProps [childA, childC]"
  let ?s = "renderPresenceChild False (Some (OnExit ''b'' 4 3 True))
              (fst (exitEffect True None (renderPresenceChild True None newPresenceChild)))"
  have ni: "\<not> isInitialRender ?st" by (simp add: run)
  have al: "allocated ?st" by (simp add: allocated_def run)
  have x: "r_output (render ?props ?st) ! 1 \<in> set (r_output (render ?props ?st))"
    by (simp add: run)
  have ex: "\<not> pc_isPresent (r_output (render ?props ?st) ! 1)" by (simp add: run)
  have f: "effect_isPresent ?s \<noteq> Some False" by (simp add: run)
  have z: "presenceChildren ?s = []" by (simp add: run)
  from zero_registrant_shortcut [OF ni al x ex f z] show ?thesis by (simp add: run)
qed

text \<open>
  C5, as the code has it. In a pass past the first with distinct committed keys, take the key
  at index \<open>i\<close> of \<open>presentKeys\<close> that left the target, and let every key up to index \<open>i\<close>
  that left the target have a recorded descriptor. Then that key is rendered at index \<open>i\<close> of
  the output, as the exiting \<open>PresenceChild\<close> of its recorded descriptor with this pass's
  \<open>onExit\<close> closure. The elements rendered present are the target children in target order,
  so they fill the other positions as the target orders them.
\<close>

theorem exiting_child_keeps_present_index:
  assumes ni: "\<not> isInitialRender st" and al: "allocated st"
    and kk: "keyedByOwnKey (allChildren st)"
    and d: "distinct (presentKeysOf st)"
    and i: "i < length (presentKeysOf st)"
    and e: "presentKeysOf st ! i \<notin> set (targetKeysOf (onlyElements (children props)))"
    and desc: "\<forall>j \<le> i. presentKeysOf st ! j \<notin> set (targetKeysOf (onlyElements (children props)))
                 \<longrightarrow> map_of (allChildren st) (presentKeysOf st ! j) \<noteq> None"
  shows "i < length (r_output (render props st)) \<and>
    presentKeysOf st ! i \<in> set (sets (r_state (render props st)) (r_exiting (render props st))) \<and>
    (\<exists>child. map_of (allChildren st) (presentKeysOf st ! i) = Some child \<and>
       r_output (render props st) ! i
         = exitingChild props
             (OnExit (presentKeysOf st ! i) (r_exiting (render props st))
                (r_filteredChildren (render props st)) (onExitComplete props))
             child) \<and>
    filter pc_isPresent (r_output (render props st))
      = map (presentChild props) (onlyElements (children props))"
proof -
  let ?F = "onlyElements (children props)"
  let ?pk = "presentKeysOf st"
  let ?tk = "targetKeysOf ?F"
  let ?ex = "markExiting ?pk ?tk"
  let ?step = "spliceExiting props (allChildren st) ?pk ?tk (nextAddr st + 1) (nextAddr st)"
  let ?sp = "foldl ?step ?F ?ex"
  have exf: "?ex = filter (\<lambda>k. k \<notin> set ?tk) ?pk" using d by (rule markExiting_filter)
  have len: "length ?tk = length ?F" by (simp add: targetKeysOf_def)
  have P: "i < length (foldl ?step ?F (filter (\<lambda>k. k \<notin> set ?tk) ?pk)) \<and>
     (\<exists>child. map_of (allChildren st) (?pk ! i) = Some child \<and>
        foldl ?step ?F (filter (\<lambda>k. k \<notin> set ?tk) ?pk) ! i
          = exitingChild props
              (OnExit (?pk ! i) (nextAddr st + 1) (nextAddr st) (onExitComplete props)) child)"
    by (rule spliced_position [OF d len i desc e])
  have il: "i < length ?sp" unfolding exf by (rule P [THEN conjunct1])
  have "\<exists>child. map_of (allChildren st) (?pk ! i) = Some child \<and>
        ?sp ! i = exitingChild props
              (OnExit (?pk ! i) (nextAddr st + 1) (nextAddr st) (onExitComplete props)) child"
    unfolding exf by (rule P [THEN conjunct2])
  then obtain child where ch: "map_of (allChildren st) (?pk ! i) = Some child"
    and sp: "?sp ! i = exitingChild props
               (OnExit (?pk ! i) (nextAddr st + 1) (nextAddr st) (onExitComplete props)) child"
    by blast
  from i e have kin: "?pk ! i \<in> set ?ex" by (simp add: set_markExiting)
  from kk ch have "getChildKey child = ?pk ! i" by (rule keyedByOwnKey_lookup)
  with kin have "exitingHas ?ex (exitingChild props
      (OnExit (?pk ! i) (nextAddr st + 1) (nextAddr st) (onExitComplete props)) child)"
    by simp
  then have "wrapPresent props ?ex (?sp ! i) = ?sp ! i"
    unfolding sp wrapPresent_def by simp
  with il have out: "r_output (render props st) ! i = ?sp ! i"
    by (simp add: render_later(5) [OF ni al])
  have c1: "i < length (r_output (render props st))"
    using il by (simp add: render_later(5) [OF ni al])
  have c2: "?pk ! i \<in> set (sets (r_state (render props st)) (r_exiting (render props st)))"
    using kin by (simp only: render_later(1) [OF ni al])
  have c3: "\<exists>child. map_of (allChildren st) (?pk ! i) = Some child \<and>
       r_output (render props st) ! i
         = exitingChild props
             (OnExit (?pk ! i) (r_exiting (render props st))
                (r_filteredChildren (render props st)) (onExitComplete props)) child"
    using ch sp out by (simp add: render_later(2,3) [OF ni al])
  have c4: "filter pc_isPresent (r_output (render props st)) = map (presentChild props) ?F"
    by (rule render_present_nodes [OF ni al kk])
  from c1 c2 c3 c4 show ?thesis by blast
qed

text \<open>Scenario A: committed \<open>[a, b, c]\<close>, target \<open>[a, c]\<close>; \<open>b\<close> is rendered exiting at index 1.\<close>

theorem exiting_child_keeps_present_index_witness:
  "r_output (render (scenarioProps [childA, childC])
      (r_state (pass (scenarioProps [childA, childB, childC]) newCoordinator))) ! 1
     = exitingChild (scenarioProps [childA, childC]) (OnExit ''b'' 4 3 True) childB \<and>
   presentKeysOf (r_state (pass (scenarioProps [childA, childB, childC]) newCoordinator)) ! 1 = ''b''"
proof -
  let ?st = "r_state (pass (scenarioProps [childA, childB, childC]) newCoordinator)"
  let ?props = "scenarioProps [childA, childC]"
  have ni: "\<not> isInitialRender ?st" by (simp add: run)
  have al: "allocated ?st" by (simp add: allocated_def run)
  have kk: "keyedByOwnKey (allChildren ?st)" by (simp add: keyedByOwnKey_def run)
  have d: "distinct (presentKeysOf ?st)" by (simp add: run)
  have i: "1 < length (presentKeysOf ?st)" by (simp add: run)
  have e: "presentKeysOf ?st ! 1 \<notin> set (targetKeysOf (onlyElements (children ?props)))"
    by (simp add: run)
  have desc: "\<forall>j \<le> 1. presentKeysOf ?st ! j \<notin> set (targetKeysOf (onlyElements (children ?props)))
                 \<longrightarrow> map_of (allChildren ?st) (presentKeysOf ?st ! j) \<noteq> None"
    by (simp add: run le_Suc_eq)
  from exiting_child_keeps_present_index [OF ni al kk d i e desc] show ?thesis
    by (simp add: run)
qed

text \<open>
  C5 as stated fails twice. After the run of \<open>staleCommit\<close> the committed keys are
  \<open>[b, c]\<close> and \<open>b\<close> has no descriptor: with no children, \<open>b\<close> is skipped and \<open>c\<close>, which
  held index 1, is the only element of the output. And with committed \<open>[a, b]\<close> and target
  \<open>[c, a]\<close>, \<open>b\<close> is rendered at its index 1 but now before \<open>a\<close>, which it followed.
\<close>

theorem exiting_child_moved_counterexample:
  "presentKeysOf staleCommit = [''b'', ''c''] \<and>
   r_output (render (scenarioProps []) staleCommit)
     = [exitingChild (scenarioProps []) (OnExit ''c'' 10 9 True) childC] \<and>
   presentKeysOf (r_state (pass (scenarioProps [childA, childB]) newCoordinator)) = [''a'', ''b''] \<and>
   r_output (render (scenarioProps [childC, childA])
               (r_state (pass (scenarioProps [childA, childB]) newCoordinator)))
     = [presentChild (scenarioProps [childC, childA]) childC,
        exitingChild (scenarioProps [childC, childA]) (OnExit ''b'' 4 3 True) childB,
        presentChild (scenarioProps [childC, childA]) childA]"
  by (simp add: run staleRun2_def staleRun3_def staleCommit_def)

text \<open>
  C6. If a pass ends with an empty \<open>exiting\<close> set and the next pass has the same set of
  target keys, the \<open>exiting\<close> set of the next pass is empty and its output is the target
  children, each a present \<open>PresenceChild\<close> without \<open>onExitComplete\<close>: no effect calls a
  closure, and a report on a \<open>PresenceChild\<close> holding that absent callback produces no event,
  so neither \<open>onExit\<close> nor the global callback runs.
\<close>

theorem same_keys_stay_quiet:
  assumes q: "sets (r_state (pass props1 st)) (r_exiting (pass props1 st)) = []"
    and same: "set (targetKeysOf (onlyElements (children props1)))
                 = set (targetKeysOf (onlyElements (children props2)))"
  shows "sets (r_state (pass props2 (r_state (pass props1 st))))
              (r_exiting (pass props2 (r_state (pass props1 st)))) = [] \<and>
    r_output (pass props2 (r_state (pass props1 st)))
      = map (presentChild props2) (onlyElements (children props2)) \<and>
    (\<forall>x \<in> set (r_output (pass props2 (r_state (pass props1 st)))).
       pc_isPresent x \<and> pc_onExitComplete x = None \<and>
       (\<forall>s. snd (exitEffect (pc_isPresent x) (pc_onExitComplete x) s) = [] \<and>
            (\<forall>childId. context_onExitComplete s = pc_onExitComplete x \<longrightarrow>
               snd (hostReportDone childId (s, r_state (pass props2 (r_state (pass props1 st))))) = [])))"
proof -
  let ?st1 = "r_state (pass props1 st)"
  let ?F = "onlyElements (children props2)"
  have ni: "\<not> isInitialRender ?st1" by (simp add: pass_state layoutEffect_fields)
  have al: "allocated ?st1" by (rule pass_allocated)
  have pk: "presentKeysOf ?st1 = targetKeysOf (onlyElements (children props1))"
    using q by (rule pass_quiet_presentKeys)
  have "set (markExiting (presentKeysOf ?st1) (targetKeysOf ?F)) = {}"
    by (simp add: set_markExiting pk same)
  then have me: "markExiting (presentKeysOf ?st1) (targetKeysOf ?F) = []" by simp
  have "sets (r_state (render props2 ?st1)) (r_exiting (render props2 ?st1)) = []"
    by (simp only: render_later(1) [OF ni al] me)
  then have c1: "sets (r_state (pass props2 ?st1)) (r_exiting (pass props2 ?st1)) = []"
    by (simp only: pass_state [of props2] pass_exiting [of props2] layoutEffect_fields)
  have "r_output (render props2 ?st1) = map (presentChild props2) ?F"
    by (simp only: render_later(5) [OF ni al] me)
      (simp add: wrapPresent_def exitingHas_def split: option.splits)
  then have c2: "r_output (pass props2 ?st1) = map (presentChild props2) ?F"
    by (simp only: pass_output [of props2])
  have c3: "\<forall>x \<in> set (r_output (pass props2 ?st1)).
       pc_isPresent x \<and> pc_onExitComplete x = None \<and>
       (\<forall>s. snd (exitEffect (pc_isPresent x) (pc_onExitComplete x) s) = [] \<and>
            (\<forall>childId. context_onExitComplete s = pc_onExitComplete x \<longrightarrow>
               snd (hostReportDone childId (s, r_state (pass props2 ?st1))) = []))"
    by (auto simp: c2 exitEffect_def hostReportDone_no_callback)
  from c1 c2 c3 show ?thesis by blast
qed

theorem same_keys_stay_quiet_witness:
  "r_output (pass (scenarioProps [childB, childA])
      (r_state (pass (scenarioProps [childA, childB]) newCoordinator)))
     = [presentChild (scenarioProps [childB, childA]) childB,
        presentChild (scenarioProps [childB, childA]) childA] \<and>
   sets (r_state (pass (scenarioProps [childB, childA])
      (r_state (pass (scenarioProps [childA, childB]) newCoordinator)))) 4 = []"
proof -
  have q: "sets (r_state (pass (scenarioProps [childA, childB]) newCoordinator))
             (r_exiting (pass (scenarioProps [childA, childB]) newCoordinator)) = []"
    by (simp add: run)
  have same: "set (targetKeysOf (onlyElements (children (scenarioProps [childA, childB]))))
                = set (targetKeysOf (onlyElements (children (scenarioProps [childB, childA]))))"
    by (simp add: run insert_commute)
  from same_keys_stay_quiet [OF q same] show ?thesis by (simp add: run)
qed

text \<open>
  C7, as the code has it. A committed key that left the target and has no entry in the lookup
  table is skipped: no output element carries it. It stays in the \<open>exiting\<close> set of the
  pass, so any other closure of that pass leaves the set non-empty and makes no call out.
\<close>

theorem missing_descriptor_skipped:
  assumes ni: "\<not> isInitialRender st" and al: "allocated st"
    and kk: "keyedByOwnKey (allChildren st)"
    and p: "k \<in> set (presentKeysOf st)"
    and t: "k \<notin> set (targetKeysOf (onlyElements (children props)))"
    and m: "map_of (allChildren st) k = None"
  shows "(\<forall>x \<in> set (r_output (pass props st)). getChildKey x \<noteq> k) \<and>
    k \<in> set (sets (r_state (pass props st)) (r_exiting (pass props st))) \<and>
    (\<forall>c. cl_exiting c = r_exiting (pass props st) \<and> cl_key c \<noteq> k \<longrightarrow>
       snd (onExit c (r_state (pass props st))) = [] \<and>
       k \<in> set (sets (fst (onExit c (r_state (pass props st)))) (r_exiting (pass props st))))"
proof -
  let ?r = "render props st"
  let ?e = "r_exiting ?r"
  have exq: "sets (r_state ?r) ?e
      = markExiting (presentKeysOf st) (targetKeysOf (onlyElements (children props)))"
    by (rule render_later(1) [OF ni al])
  with p t have kin: "k \<in> set (sets (r_state ?r) ?e)" by (simp add: set_markExiting)
  have c1: "\<forall>x \<in> set (r_output (pass props st)). getChildKey x \<noteq> k"
  proof
    fix x assume "x \<in> set (r_output (pass props st))"
    then have x: "x \<in> set (r_output ?r)" by (simp only: pass_output)
    from render_output_keyed [OF ni al kk x] show "getChildKey x \<noteq> k"
    proof (elim disjE bexE exE conjE)
      fix c assume "c \<in> set (onlyElements (children props))" "x = presentChild props c"
      with t show ?thesis by (auto simp: targetKeysOf_def)
    next
      fix k' child assume "map_of (allChildren st) k' = Some child" "getChildKey child = k'"
        "x = exitingChild props (OnExit k' (nextAddr st + 1) (nextAddr st) (onExitComplete props)) child"
      with m show ?thesis by auto
    qed
  qed
  have se: "sets (r_state (pass props st)) (r_exiting (pass props st)) = sets (r_state ?r) ?e"
    by (simp only: pass_state pass_exiting layoutEffect_fields)
  have c3: "\<forall>c. cl_exiting c = r_exiting (pass props st) \<and> cl_key c \<noteq> k \<longrightarrow>
       snd (onExit c (r_state (pass props st))) = [] \<and>
       k \<in> set (sets (fst (onExit c (r_state (pass props st)))) (r_exiting (pass props st)))"
  proof (intro allI impI, elim conjE)
    fix c assume ce: "cl_exiting c = r_exiting (pass props st)" and ck: "cl_key c \<noteq> k"
    let ?st' = "r_state (pass props st)"
    from kin ck have "k \<in> set (setDelete (cl_key c) (sets ?st' (cl_exiting c)))"
      by (simp add: ce se setDelete_def)
    moreover from this have "setDelete (cl_key c) (sets ?st' (cl_exiting c)) \<noteq> []" by auto
    ultimately show "snd (onExit c ?st') = [] \<and>
       k \<in> set (sets (fst (onExit c ?st')) (r_exiting (pass props st)))"
      using onExit_pending [of c ?st'] by (simp add: onExit_sets ce [symmetric])
  qed
  from kin have c2: "k \<in> set (sets (r_state (pass props st)) (r_exiting (pass props st)))"
    by (simp only: se)
  from c1 c2 c3 show ?thesis by blast
qed

theorem missing_descriptor_skipped_witness:
  "r_output (pass (scenarioProps []) staleCommit)
     = [exitingChild (scenarioProps []) (OnExit ''c'' 10 9 True) childC] \<and>
   sets (r_state (pass (scenarioProps []) staleCommit)) 10 = [''b'', ''c'']"
proof -
  have ni: "\<not> isInitialRender staleCommit" by (simp add: run staleRun2_def staleRun3_def staleCommit_def)
  have al: "allocated staleCommit" by (simp add: allocated_def run staleRun2_def staleRun3_def staleCommit_def)
  have kk: "keyedByOwnKey (allChildren staleCommit)" by (simp add: keyedByOwnKey_def run staleRun2_def staleRun3_def staleCommit_def)
  have p: "''b'' \<in> set (presentKeysOf staleCommit)" by (simp add: run staleRun2_def staleRun3_def staleCommit_def)
  have t: "''b'' \<notin> set (targetKeysOf (onlyElements (children (scenarioProps []))))"
    by (simp add: run staleRun2_def staleRun3_def staleCommit_def)
  have m: "map_of (allChildren staleCommit) ''b'' = None" by (simp add: run staleRun2_def staleRun3_def staleCommit_def)
  from missing_descriptor_skipped [OF ni al kk p t m] show ?thesis by (simp add: run staleRun2_def staleRun3_def staleCommit_def)
qed

text \<open>
  C7 as stated fails on its second half. After the run of \<open>staleCommit\<close> the committed
  sequence holds \<open>b\<close> without a table entry. The pass with no children skips \<open>b\<close> and renders
  \<open>c\<close> exiting; when \<open>c\<close> completes, \<open>b\<close> is still in the \<open>exiting\<close> set, and neither a
  render is requested nor \<open>onExitComplete\<close> called although it was supplied.
\<close>

theorem missing_descriptor_blocks_counterexample:
  "map_of (allChildren staleCommit) ''b'' = None \<and>
   r_output (pass (scenarioProps []) staleCommit)
     = [exitingChild (scenarioProps []) (OnExit ''c'' 10 9 True) childC] \<and>
   sets (fst (onExit (OnExit ''c'' 10 9 True) (r_state (pass (scenarioProps []) staleCommit)))) 10
     = [''b''] \<and>
   snd (onExit (OnExit ''c'' 10 9 True) (r_state (pass (scenarioProps []) staleCommit))) = []"
  by (simp add: run staleRun2_def staleRun3_def staleCommit_def)

section \<open>Claims about PresenceChild and the lookup table\<close>

text \<open>
  C8, as the code has it. A render of \<open>PresenceChild\<close> sets every registry entry to false
  when \<open>isPresent\<close> differs from the previous render, in either direction, and leaves the
  registry alone when it does not; this happens in the render, before the children run.
  \<open>register\<close>, \<open>reportDone\<close> and \<open>unregister\<close> leave the entries of every other id
  unchanged.
\<close>

theorem registry_reset_on_isPresent_change:
  "(deps_isPresent s \<noteq> Some isPresent \<longrightarrow>
      presenceChildren (renderPresenceChild isPresent cb s)
        = map (\<lambda>(k, _). (k, False)) (presenceChildren s)) \<and>
   (deps_isPresent s = Some isPresent \<longrightarrow>
      presenceChildren (renderPresenceChild isPresent cb s) = presenceChildren s) \<and>
   (other \<noteq> childId \<longrightarrow>
      map_of (presenceChildren (register childId s)) other = map_of (presenceChildren s) other \<and>
      map_of (presenceChildren (fst (reportDone childId s))) other
        = map_of (presenceChildren s) other \<and>
      map_of (presenceChildren (unregister childId s)) other = map_of (presenceChildren s) other)"
  by (simp add: renderPresenceChild_def depsChanged_def register_def reportDone_def
      unregister_def Let_def update_conv' delete_conv')

theorem registry_reset_on_isPresent_change_witness:
  "presenceChildren (renderPresenceChild False (Some (OnExit ''a'' 4 3 True))
     (fst (reportDone ''m'' (register ''m'' (renderPresenceChild True None newPresenceChild)))))
     = [(''m'', False)] \<and>
   presenceChildren (renderPresenceChild False (Some (OnExit ''a'' 4 3 True)) halfDone)
     = [(''m'', True), (''n'', False)] \<and>
   map_of (presenceChildren (register ''n'' halfDone)) ''m'' = Some True \<and>
   map_of (presenceChildren (fst (reportDone ''n'' halfDone))) ''m'' = Some True \<and>
   map_of (presenceChildren (unregister ''n'' halfDone)) ''m'' = Some True"
  using registry_reset_on_isPresent_change
    [of "fst (reportDone ''m'' (register ''m'' (renderPresenceChild True None newPresenceChild)))"
        False "Some (OnExit ''a'' 4 3 True)" "''m''" "''n''"]
    registry_reset_on_isPresent_change
    [of halfDone False "Some (OnExit ''a'' 4 3 True)" "''m''" "''n''"]
  by (simp add: run halfDone_def unregister_def)

text \<open>
  C8 as stated fails: the registry is also reset when an exiting child becomes present
  again. Here \<open>m\<close> had reported and \<open>n\<close> had not; the render with \<open>isPresent = true\<close>
  sets \<open>m\<close> back to false.
\<close>

theorem registry_reset_on_resurrection_counterexample:
  "deps_isPresent halfDone = Some False \<and>
   presenceChildren halfDone = [(''m'', True), (''n'', False)] \<and>
   presenceChildren (renderPresenceChild True None halfDone) = [(''m'', False), (''n'', False)]"
  by (simp add: run halfDone_def)

text \<open>
  C9, as the code has it. If every entry of the lookup table sits under its own key and every
  key of \<open>presentChildren\<close> has an entry, then after a pass every key of that pass's
  \<open>exiting\<close> set has an entry, every committed key has one, and both assumptions hold
  again. A closure removes its key from the table and from its own \<open>exiting\<close> set together,
  so a set whose keys were all recorded stays so.
\<close>

theorem exiting_keys_recorded_within_pass:
  assumes al: "isInitialRender st \<or> allocated st"
    and kk: "keyedByOwnKey (allChildren st)"
    and rec: "\<forall>k \<in> set (presentKeysOf st). map_of (allChildren st) k \<noteq> None"
  shows "(\<forall>k \<in> set (sets (r_state (pass props st)) (r_exiting (pass props st))).
            map_of (allChildren (r_state (pass props st))) k \<noteq> None) \<and>
    (\<forall>k \<in> set (presentKeysOf (r_state (pass props st))).
            map_of (allChildren (r_state (pass props st))) k \<noteq> None) \<and>
    keyedByOwnKey (allChildren (r_state (pass props st))) \<and>
    allocated (r_state (pass props st)) \<and>
    (\<forall>c st'. (\<forall>k \<in> set (sets st' (cl_exiting c)). map_of (allChildren st') k \<noteq> None) \<longrightarrow>
       (\<forall>k \<in> set (sets (fst (onExit c st')) (cl_exiting c)).
           map_of (allChildren (fst (onExit c st'))) k \<noteq> None) \<and>
       map_of (allChildren (fst (onExit c st'))) (cl_key c) = None \<and>
       cl_key c \<notin> set (sets (fst (onExit c st')) (cl_exiting c)))"
proof -
  let ?F = "onlyElements (children props)"
  let ?r = "render props st"
  let ?st' = "r_state (pass props st)"
  have tbl: "allChildren ?st' = updateChildLookup ?F (allChildren st)"
    by (simp add: pass_state layoutEffect_fields render_common)
  have se: "sets ?st' (r_exiting (pass props st)) = sets (r_state ?r) (r_exiting ?r)"
    by (simp only: pass_state pass_exiting layoutEffect_fields)
  have pk: "presentKeysOf ?st' = map getChildKey (arrays (r_state ?r) (r_childrenToRender ?r))"
    by (simp add: presentKeysOf_def pass_state layoutEffect_fields)
  have c3: "keyedByOwnKey (allChildren ?st')"
    using kk by (simp add: tbl keyedByOwnKey_updateChildLookup)
  have c4: "allocated ?st'" by (rule pass_allocated)
  have c12: "(\<forall>k \<in> set (sets ?st' (r_exiting (pass props st))). map_of (allChildren ?st') k \<noteq> None) \<and>
    (\<forall>k \<in> set (presentKeysOf ?st'). map_of (allChildren ?st') k \<noteq> None)"
  proof (cases "isInitialRender st")
    case True
    then show ?thesis
      by (simp add: se pk tbl render_initial recorded_updateChildLookup)
  next
    case ni: False
    with al have a: "allocated st" by simp
    have "\<forall>k \<in> set (sets (r_state ?r) (r_exiting ?r)). map_of (allChildren ?st') k \<noteq> None"
      using rec by (simp add: render_later(1) [OF ni a] set_markExiting tbl recorded_updateChildLookup)
    moreover have "\<forall>k \<in> set (presentKeysOf ?st'). map_of (allChildren ?st') k \<noteq> None"
    proof
      fix k assume "k \<in> set (presentKeysOf ?st')"
      moreover have "arrays (r_state ?r) (r_childrenToRender ?r) = r_output ?r"
        by (simp only: render_later(4,6) [OF ni a])
      ultimately obtain x where x: "x \<in> set (r_output ?r)" and xk: "getChildKey x = k"
        unfolding pk by auto
      from render_output_keyed [OF ni a kk x] show "map_of (allChildren ?st') k \<noteq> None"
      proof (elim disjE bexE exE conjE)
        fix c assume "c \<in> set ?F" "x = presentChild props c"
        with xk have "k \<in> getChildKey ` set ?F" by auto
        then have "map_of (updateChildLookup ?F (allChildren st)) k \<noteq> None"
          by (rule recorded_updateChildLookup [OF disjI2])
        then show ?thesis unfolding tbl .
      next
        fix k' child assume "map_of (allChildren st) k' = Some child" "getChildKey child = k'"
          "x = exitingChild props (OnExit k' (nextAddr st + 1) (nextAddr st) (onExitComplete props)) child"
        with xk have "map_of (allChildren st) k \<noteq> None" by auto
        then have "map_of (updateChildLookup ?F (allChildren st)) k \<noteq> None"
          by (rule recorded_updateChildLookup [OF disjI1])
        then show ?thesis unfolding tbl .
      qed
    qed
    ultimately show ?thesis by (simp only: se) 
  qed
  have c5: "\<forall>c st'. (\<forall>k \<in> set (sets st' (cl_exiting c)). map_of (allChildren st') k \<noteq> None) \<longrightarrow>
       (\<forall>k \<in> set (sets (fst (onExit c st')) (cl_exiting c)).
           map_of (allChildren (fst (onExit c st'))) k \<noteq> None) \<and>
       map_of (allChildren (fst (onExit c st'))) (cl_key c) = None \<and>
       cl_key c \<notin> set (sets (fst (onExit c st')) (cl_exiting c))"
    by (auto simp: onExit_sets onExit_allChildren setDelete_def delete_conv')
  from c12 c3 c4 c5 show ?thesis by blast
qed

theorem exiting_keys_recorded_within_pass_witness:
  "sets (r_state oneExiting) (r_exiting oneExiting) = [''b''] \<and>
   map_of (allChildren (r_state oneExiting)) ''b'' = Some childB \<and>
   map_of (allChildren (fst (onExit (OnExit ''b'' 4 3 True) (r_state oneExiting)))) ''b'' = None \<and>
   sets (fst (onExit (OnExit ''b'' 4 3 True) (r_state oneExiting))) 4 = []"
proof -
  let ?st = "r_state (pass (scenarioProps [childA, childB, childC]) newCoordinator)"
  have al: "isInitialRender ?st \<or> allocated ?st" by (simp add: allocated_def run oneExiting_def)
  have kk: "keyedByOwnKey (allChildren ?st)" by (simp add: keyedByOwnKey_def run oneExiting_def)
  have rec: "\<forall>k \<in> set (presentKeysOf ?st). map_of (allChildren ?st) k \<noteq> None"
    by (simp add: run oneExiting_def)
  from exiting_keys_recorded_within_pass [OF al kk rec, of "scenarioProps [childA, childC]"]
  show ?thesis by (simp add: run oneExiting_def)
qed

text \<open>
  C9 as stated fails at a reachable state. The \<open>PresenceChild\<close> of \<open>a\<close> keeps the closure of
  the second pass; when it runs after \<open>b\<close> completed, its own \<open>exiting\<close> set is empty and
  \<open>presentChildren\<close> becomes the second pass's \<open>filteredChildren\<close>, which still holds
  \<open>b\<close>. The render it requests puts \<open>b\<close> in the \<open>exiting\<close> set, and the table has no
  entry for \<open>b\<close>.
\<close>

theorem exiting_key_unrecorded_counterexample:
  "context_onExitComplete lingeringA = Some (OnExit ''a'' 4 3 True) \<and>
   pc_onExitComplete (r_output staleRun3 ! 1) = Some (OnExit ''b'' 7 6 True) \<and>
   snd (onExit (OnExit ''a'' 4 3 True) (fst (onExit (OnExit ''b'' 7 6 True) (r_state staleRun3))))
     = [ForceRender, ExitComplete] \<and>
   sets (r_state (pass (scenarioProps [childC]) staleCommit))
        (r_exiting (pass (scenarioProps [childC]) staleCommit)) = [''b''] \<and>
   map_of (allChildren (r_state (pass (scenarioProps [childC]) staleCommit))) ''b'' = None"
  by (simp add: run staleRun2_def staleRun3_def staleCommit_def lingeringA_def)

text \<open>
  C10. A child whose key is \<open>null\<close> or the empty string gets the key \<open>''\<close>. However many
  such children a pass has, the lookup table ends with one entry under \<open>''\<close>, holding the
  last of them, and the diff holds \<open>''\<close> at most once.
\<close>

theorem unkeyed_children_share_empty_key:
  assumes u: "key c = None \<or> key c = Some ''''"
    and l: "\<forall>d \<in> set post. key d \<noteq> None \<and> key d \<noteq> Some ''''"
    and t: "distinct (map fst tbl)"
  shows "(\<forall>d \<in> set (pre @ c # post). key d = None \<or> key d = Some '''' \<longrightarrow> getChildKey d = '''') \<and>
    map_of (updateChildLookup (pre @ c # post) tbl) '''' = Some c \<and>
    length (filter (\<lambda>e. fst e = '''') (updateChildLookup (pre @ c # post) tbl)) = 1 \<and>
    length (filter (\<lambda>k. k = '''')
              (markExiting (map getChildKey (pre @ c # post)) targetKeys)) \<le> 1"
proof -
  from u have kc: "getChildKey c = ''''" by (rule getChildKey_unkeyed)
  from l have "\<forall>d \<in> set post. getChildKey d \<noteq> getChildKey c"
    by (auto simp: kc getChildKey_nonempty)
  then have m: "map_of (updateChildLookup (pre @ c # post) tbl) '''' = Some c"
    using map_of_updateChildLookup_last [of post c pre tbl] by (simp add: kc)
  then have "'''' \<in> fst ` set (updateChildLookup (pre @ c # post) tbl)"
    by (metis domI dom_map_of_conv_image_fst)
  with distinct_updateChildLookup [OF t]
  have one: "length (filter (\<lambda>e. fst e = '''') (updateChildLookup (pre @ c # post) tbl)) = 1"
    by (rule one_entry_per_key)
  have d: "length (filter (\<lambda>k. k = '''')
              (markExiting (map getChildKey (pre @ c # post)) targetKeys)) \<le> 1"
    by (rule distinct_count_le_one) (rule distinct_markExiting)
  from m one d show ?thesis by (auto simp: getChildKey_unkeyed)
qed

theorem unkeyed_children_share_empty_key_witness:
  "map_of (updateChildLookup [Child None 7, childA, Child None 8, childB] []) '''' = Some (Child None 8) \<and>
   updateChildLookup [Child None 7, childA, Child None 8, childB] []
     = [('''', Child None 8), (''a'', childA), (''b'', childB)] \<and>
   markExiting (map getChildKey [Child None 7, childA, Child None 8, childB]) [''a''] = ['''', ''b'']"
proof -
  have u: "key (Child None 8) = None \<or> key (Child None 8) = Some ''''" by simp
  have l: "\<forall>d \<in> set [childB]. key d \<noteq> None \<and> key d \<noteq> Some ''''" by (simp add: childB_def)
  have t: "distinct (map fst ([] :: (ComponentKey \<times> element) list))" by simp
  from unkeyed_children_share_empty_key [OF u l t, of "[Child None 7, childA]" "[''a'']"]
  show ?thesis by (simp add: run)
qed

end
